theory Spec2Isabelle
  imports Complex_Main "HOL-Library.Word"
begin

unbundle bit_operations_syntax

section \<open>Numbers and vectors\<close>

text \<open>
  The C++ type \<^verbatim>\<open>uint\<close> is a 32-bit word; \<^verbatim>\<open>+\<close>, \<^verbatim>\<open>-\<close>, \<^verbatim>\<open><<\<close> and
  \<^verbatim>\<open>>>\<close> on it wrap as the machine does.  A C++ \<^verbatim>\<open>int\<close> local (in
  \<^verbatim>\<open>partition\<close>) is a mathematical integer, converted from and to \<^verbatim>\<open>uint\<close>
  by \<open>sint\<close> and \<open>word_of_int\<close>; signed overflow is undefined in C++ and does not
  occur below \<open>2 ^ 31\<close>.

  A \<^verbatim>\<open>float\<close> is the real number that the binary32 value stands for.  Every
  arithmetic operation of the source (\<^verbatim>\<open>+\<close>, \<^verbatim>\<open>-\<close>, \<^verbatim>\<open>*\<close>, \<^verbatim>\<open>/\<close>, the conversion
  of an integer, a decimal literal) gives the exact result rounded to the nearest binary32
  number, ties to the even significand: the function \<open>f32\<close> below.  Comparisons,
  \<^verbatim>\<open>fminf\<close> and \<^verbatim>\<open>fmaxf\<close> are exact.  NaN, signed zeros and the overflow of a
  result beyond the largest finite binary32 number are outside the model.  Where the text
  speaks of an infinite float, the type \<open>xfloat\<close> adds the two infinities.
\<close>

type_synonym uint = "32 word"
type_synonym float = real
type_synonym float3 = "float \<times> float \<times> float"

datatype xfloat = NegInf | Finite float | PosInf

fun xless :: "xfloat \<Rightarrow> xfloat \<Rightarrow> bool" where
  "xless NegInf NegInf = False"
| "xless NegInf _ = True"
| "xless (Finite a) (Finite b) = (a < b)"
| "xless (Finite a) PosInf = True"
| "xless (Finite a) NegInf = False"
| "xless PosInf _ = False"

text \<open>
  Rounding to binary32.  \<open>expo x\<close> is the exponent \<open>e\<close> with \<open>2^e \<le> |x| < 2^(e+1)\<close>, found
  by halving or doubling, and kept between \<open>-126\<close> (below it the numbers are subnormal and
  share the spacing \<open>2^-149\<close>) and \<open>127\<close>.  The binary32 numbers with exponent \<open>e\<close> are
  the multiples of \<open>2^(e-23)\<close>; \<open>rne\<close> rounds to the nearest integer, a tie to the even
  one.
\<close>

fun expo_up :: "nat \<Rightarrow> real \<Rightarrow> int \<Rightarrow> int" where
  "expo_up 0 x e = e"
| "expo_up (Suc n) x e = (if x < 2 then e else expo_up n (x / 2) (e + 1))"

fun expo_down :: "nat \<Rightarrow> real \<Rightarrow> int \<Rightarrow> int" where
  "expo_down 0 x e = e"
| "expo_down (Suc n) x e = (if 1 \<le> x then e else expo_down n (2 * x) (e - 1))"

definition expo :: "real \<Rightarrow> int" where
  "expo x = (if 1 \<le> \<bar>x\<bar> then expo_up 127 \<bar>x\<bar> 0 else expo_down 126 \<bar>x\<bar> 0)"

definition pow2 :: "int \<Rightarrow> real" where
  "pow2 e = (if 0 \<le> e then 2 ^ nat e else 1 / 2 ^ nat (- e))"

definition rne :: "real \<Rightarrow> int" where
  "rne y = (let f = \<lfloor>y\<rfloor>; d = y - of_int f
            in if d < 1/2 then f else if 1/2 < d then f + 1 else if even f then f else f + 1)"

definition f32 :: "real \<Rightarrow> float" where
  "f32 x = (if x = 0 then 0 else (let u = pow2 (expo x - 23) in of_int (rne (x / u)) * u))"

text \<open>The arithmetic of \<^verbatim>\<open>float\<close>: the exact result, rounded.\<close>

definition fadd :: "float \<Rightarrow> float \<Rightarrow> float" where
  "fadd x y = f32 (x + y)"

definition fsub :: "float \<Rightarrow> float \<Rightarrow> float" where
  "fsub x y = f32 (x - y)"

definition fmul :: "float \<Rightarrow> float \<Rightarrow> float" where
  "fmul x y = f32 (x * y)"

definition fdiv :: "float \<Rightarrow> float \<Rightarrow> float" where
  "fdiv x y = f32 (x / y)"

text \<open>
  The vector helpers of the math library the header is compiled against (constructor from
  one scalar, componentwise \<^verbatim>\<open>+\<close>, \<^verbatim>\<open>-\<close>, scaling, \<^verbatim>\<open>fminf\<close>,
  \<^verbatim>\<open>fmaxf\<close>, and indexing by axis).  An \<^verbatim>\<open>__m128\<close> value is modelled by its
  first three lanes: the fourth lane of every vector in \<^verbatim>\<open>KDTree\<close> is padding.
\<close>

definition splat :: "float \<Rightarrow> float3" where
  "splat a = (a, a, a)"

fun vadd :: "float3 \<Rightarrow> float3 \<Rightarrow> float3" where
  "vadd (a, b, c) (x, y, z) = (fadd a x, fadd b y, fadd c z)"

fun vsub :: "float3 \<Rightarrow> float3 \<Rightarrow> float3" where
  "vsub (a, b, c) (x, y, z) = (fsub a x, fsub b y, fsub c z)"

fun vscale :: "float \<Rightarrow> float3 \<Rightarrow> float3" where
  "vscale k (x, y, z) = (fmul k x, fmul k y, fmul k z)"

fun fminf :: "float3 \<Rightarrow> float3 \<Rightarrow> float3" where
  "fminf (a, b, c) (x, y, z) = (min a x, min b y, min c z)"

fun fmaxf :: "float3 \<Rightarrow> float3 \<Rightarrow> float3" where
  "fmaxf (a, b, c) (x, y, z) = (max a x, max b y, max c z)"

text \<open>
  \<^verbatim>\<open>v[axis]\<close>.  Only the axes 0, 1 and 2 exist; the source reads past the vector for
  any other index, which the model leaves unspecified.
\<close>

fun at3 :: "float3 \<Rightarrow> uint \<Rightarrow> float" where
  "at3 (x, y, z) a = (if a = 0 then x else if a = 1 then y else if a = 2 then z else undefined)"

text \<open>
  Modelled from the spec: \<^verbatim>\<open>dominantAxis\<close> is a helper of the math library and is not
  in the header.  The specification describes it as ``the axis of largest centroid
  spread'': the index (0, 1 or 2) of the component of largest magnitude.  Ties go to the
  lower axis here.
\<close>

fun dominantAxis :: "float3 \<Rightarrow> uint" where
  "dominantAxis (x, y, z) =
     (if \<bar>y\<bar> \<le> \<bar>x\<bar> \<and> \<bar>z\<bar> \<le> \<bar>x\<bar> then 0 else if \<bar>z\<bar> \<le> \<bar>y\<bar> then 1 else 2)"

text \<open>
  \<^verbatim>\<open>1e30f\<close>, the value the source uses for ``no bound yet'': the binary32 number nearest
  to \<open>10^30\<close>, which is \<open>6617445 * 2^77 = 1000000015047466219876688855040\<close>.
\<close>

definition huge :: float where
  "huge = 6617445 * 2 ^ 77"

section \<open>Ray and Intersection\<close>

record Intersection =
  t :: xfloat
  u :: xfloat
  v :: xfloat
  instPrim :: uint

text \<open>
  \<^verbatim>\<open>O4\<close>, \<^verbatim>\<open>D4\<close> and \<^verbatim>\<open>rD4\<close> are the four-lane views of the unions; \<^verbatim>\<open>O\<close>,
  \<^verbatim>\<open>D\<close> and \<^verbatim>\<open>rD\<close> are their first three lanes.
\<close>

record Ray =
  O4 :: "xfloat \<times> xfloat \<times> xfloat \<times> xfloat"
  D4 :: "xfloat \<times> xfloat \<times> xfloat \<times> xfloat"
  rD4 :: "xfloat \<times> xfloat \<times> xfloat \<times> xfloat"
  hit :: Intersection

definition mm_set1_ps :: "float \<Rightarrow> xfloat \<times> xfloat \<times> xfloat \<times> xfloat" where
  "mm_set1_ps a = (Finite a, Finite a, Finite a, Finite a)"

text \<open>
  \<^verbatim>\<open>Ray() { O4 = D4 = rD4 = _mm_set1_ps( 1 ); }\<close>.  The constructor has no
  initialiser for \<^verbatim>\<open>hit\<close>, and \<^verbatim>\<open>Intersection\<close> has no default member
  initialisers, so \<^verbatim>\<open>hit\<close> keeps whatever the storage of the object held.  The
  argument is that storage.
\<close>

definition Ray_ctor :: "Ray \<Rightarrow> Ray" where
  "Ray_ctor storage = storage\<lparr>O4 := mm_set1_ps 1, D4 := mm_set1_ps 1, rD4 := mm_set1_ps 1\<rparr>"

section \<open>The kD-tree: data\<close>

record TLASNode =
  aabbMin :: float3
  leftRight :: uint
  aabbMax :: float3
  BLAS :: uint

record Bounds =
  bmin :: float3
  bmax :: float3

text \<open>
  A \<^verbatim>\<open>KDNode\<close> has the two bounds and, in a union, the fields of an interior node
  and of a leaf: \<^verbatim>\<open>first\<close> is the same storage as \<^verbatim>\<open>left\<close>, and \<^verbatim>\<open>count\<close> the
  same as \<^verbatim>\<open>right\<close>.
\<close>

record KDNode = Bounds +
  left :: uint
  right :: uint
  parax :: uint
  splitPos :: float
  minSize :: float3

abbreviation first :: "KDNode \<Rightarrow> uint" where
  "first n \<equiv> left n"

abbreviation count :: "KDNode \<Rightarrow> uint" where
  "count n \<equiv> right n"

definition isLeaf :: "KDNode \<Rightarrow> bool" where
  "isLeaf n = (3 < (parax n AND 7))"

text \<open>
  The arrays are total maps over \<^verbatim>\<open>uint\<close> indices: their allocated sizes are not
  part of the model, and an access the source makes outside an allocation reads or writes
  the map at that index.
\<close>

record KDTree =
  node :: "uint \<Rightarrow> KDNode"
  tlas :: "uint \<Rightarrow> TLASNode"
  bounds :: "uint \<Rightarrow> Bounds"
  leaf :: "uint \<Rightarrow> uint"
  tlasIdx :: "uint \<Rightarrow> uint"
  nodePtr :: uint
  tlasCount :: uint
  blasCount :: uint
  freed :: "uint \<times> uint"

definition zeroNode :: KDNode where
  "zeroNode = \<lparr>bmin = splat 0, bmax = splat 0, left = 0, right = 0, parax = 0, splitPos = 0,
     minSize = splat 0\<rparr>"

text \<open>
  \<^verbatim>\<open>KDTree( TLASNode* tlasNodes, const uint N )\<close>: the node array is cleared, the member
  initialisers give \<^verbatim>\<open>nodePtr = 1\<close> and \<^verbatim>\<open>freed = {0, 0}\<close>; \<^verbatim>\<open>bounds\<close>,
  \<^verbatim>\<open>leaf\<close> and \<^verbatim>\<open>tlasIdx\<close> are allocated and not written: they are taken from the
  argument \<open>storage\<close>.
\<close>

definition KDTree_ctor :: "KDTree \<Rightarrow> (uint \<Rightarrow> TLASNode) \<Rightarrow> uint \<Rightarrow> KDTree" where
  "KDTree_ctor storage tlasNodes N =
     storage\<lparr>node := (\<lambda>_. zeroNode), tlas := tlasNodes, nodePtr := 1, tlasCount := N,
       blasCount := N, freed := (0, 0)\<rparr>"

text \<open>
  An assignment to fields of \<^verbatim>\<open>node[i]\<close>: the function gives the new node from the
  one that is there.
\<close>

definition upd_node :: "KDTree \<Rightarrow> uint \<Rightarrow> (KDNode \<Rightarrow> KDNode) \<Rightarrow> KDTree" where
  "upd_node s i f = s\<lparr>node := (node s)(i := f (node s i))\<rparr>"

definition swap :: "KDTree \<Rightarrow> uint \<Rightarrow> uint \<Rightarrow> KDTree" where
  "swap s a b = s\<lparr>tlasIdx := (tlasIdx s)(a := tlasIdx s b, b := tlasIdx s a)\<rparr>"

text \<open>\<^verbatim>\<open>(b.bmin + b.bmax) * 0.5f\<close> and \<^verbatim>\<open>0.5f * (b.bmax - b.bmin)\<close>.\<close>

definition centroid :: "'a Bounds_scheme \<Rightarrow> float3" where
  "centroid b = vscale (1/2) (vadd (bmin b) (bmax b))"

definition halfSize :: "'a Bounds_scheme \<Rightarrow> float3" where
  "halfSize b = vscale (1/2) (vsub (bmax b) (bmin b))"

section \<open>The kD-tree: static build\<close>

text \<open>
  The first loop of \<^verbatim>\<open>subdivide\<close>, iteration \<open>i\<close>, on the node with index \<open>idx\<close>.
  The source computes \<^verbatim>\<open>0.5f * (tln.bmax - tln.bmax)\<close> for \<^verbatim>\<open>minSize\<close>.
\<close>

definition subdivide_grow :: "KDTree \<Rightarrow> uint \<Rightarrow> nat \<Rightarrow> KDNode \<Rightarrow> KDNode" where
  "subdivide_grow s fi i n =
     (let tln = bounds s (tlasIdx s (fi + of_nat i));
          C = vscale (1/2) (vadd (bmin tln) (bmax tln))
      in n\<lparr>minSize := fminf (minSize n) (vscale (1/2) (vsub (bmax tln) (bmax tln))),
            bmin := fminf (bmin n) C, bmax := fmaxf (bmax n) C\<rparr>)"

definition subdivide_bounds :: "KDTree \<Rightarrow> uint \<Rightarrow> KDTree" where
  "subdivide_bounds s idx =
     upd_node s idx (\<lambda>n. fold (subdivide_grow s (first n)) [0..<unat (count n)]
       (n\<lparr>bmin := splat huge, bmax := splat (- huge), minSize := splat huge\<rparr>))"

text \<open>
  The balancing block: \<^verbatim>\<open>leftCount\<close> counts the centroids with
  \<^verbatim>\<open>P[axis] <= center\<close>.
\<close>

definition leftCount :: "KDTree \<Rightarrow> KDNode \<Rightarrow> uint \<Rightarrow> float \<Rightarrow> nat" where
  "leftCount s n axis center =
     fold (\<lambda>i c. if at3 (centroid (bounds s (tlasIdx s (first n + of_nat i)))) axis \<le> center
                  then c + 1 else c)
       [0..<unat (count n)] 0"

definition subdivide_center :: "KDTree \<Rightarrow> KDNode \<Rightarrow> uint \<Rightarrow> float" where
  "subdivide_center s n axis =
     (let center = fmul (fadd (at3 (bmin n) axis) (at3 (bmax n) axis)) (1/2)
      in if 150 < count n
         then (let ratio = max (f32 (15/100)) (min (f32 (85/100))
                             (fdiv (f32 (real (leftCount s n axis center)))
                                   (f32 (real (unat (count n))))))
               in fadd (fmul ratio (at3 (bmin n) axis)) (fmul (fsub 1 ratio) (at3 (bmax n) axis)))
         else center)"

text \<open>
  The loop of \<^verbatim>\<open>partition\<close>.  It is a do-while loop: the body runs once before
  \<^verbatim>\<open>first >= last\<close> is tested.  The result is the state and the final \<^verbatim>\<open>last\<close>.
\<close>

function partition_loop :: "KDTree \<Rightarrow> float \<Rightarrow> uint \<Rightarrow> int \<Rightarrow> int \<Rightarrow> KDTree \<times> int" where
  "partition_loop s sp axis fi la =
     (let P = centroid (bounds s (tlasIdx s (word_of_int fi)))
      in if sp < at3 P axis
         then (let s' = swap s (word_of_int fi) (word_of_int (la - 1))
               in if la - 1 \<le> fi then (s', la - 1)
                  else partition_loop s' sp axis fi (la - 1))
         else (if la \<le> fi + 1 then (s, la)
               else partition_loop s sp axis (fi + 1) la))"
  by pat_completeness auto
termination
  by (relation "measure (\<lambda>(s, sp, axis, fi, la). nat (la - fi))") auto

declare partition_loop.simps [simp del]

text \<open>
  \<^verbatim>\<open>partition( node, splitPos, axis )\<close>, with the node given by its index
  (\<^verbatim>\<open>&node - this->node\<close>).  The two children are written at \<^verbatim>\<open>nodePtr\<close> and
  \<^verbatim>\<open>nodePtr + 1\<close>.
\<close>

definition partition :: "KDTree \<Rightarrow> uint \<Rightarrow> float \<Rightarrow> uint \<Rightarrow> KDTree" where
  "partition s idx sp axis =
     (let N = sint (count (node s idx));
          fi = sint (first (node s idx));
          (s1, la) = (if N < 3 then (s, fi + 1) else partition_loop s sp axis fi (fi + N));
          l = nodePtr s1;
          r = nodePtr s1 + 1;
          px = push_bit 3 idx + 7;
          s2 = upd_node s1 l (\<lambda>n. n\<lparr>left := first (node s1 idx)\<rparr>);
          s3 = upd_node s2 r (\<lambda>n. n\<lparr>left := word_of_int la\<rparr>);
          s4 = upd_node s3 l (\<lambda>n. n\<lparr>right := first (node s3 r) - first n\<rparr>);
          s5 = upd_node s4 r (\<lambda>n. n\<lparr>parax := px\<rparr>);
          s6 = upd_node s5 l (\<lambda>n. n\<lparr>parax := px\<rparr>)
      in upd_node s6 r (\<lambda>n. n\<lparr>right := word_of_int N - count (node s6 l)\<rparr>))"

text \<open>
  \<^verbatim>\<open>subdivide\<close> recurses on the two children; the recursion depth is the first
  argument, and \<open>None\<close> means that it was not enough.
\<close>

fun subdivide :: "nat \<Rightarrow> KDTree \<Rightarrow> uint \<Rightarrow> KDTree option" where
  "subdivide 0 s idx = None"
| "subdivide (Suc fuel) s idx =
     (let s1 = subdivide_bounds s idx;
          n = node s1 idx
      in if count n < 2 then Some s1
         else (let axis = dominantAxis (vsub (bmax n) (bmin n));
                   center = subdivide_center s1 n axis;
                   s2 = partition s1 idx center axis
               in if count (node s2 (nodePtr s2)) = 0 \<or> count (node s2 (nodePtr s2 + 1)) = 0
                  then Some s2
                  else (let leftIdx = nodePtr s2;
                            s3 = (upd_node s2 idx (\<lambda>n. n\<lparr>left := leftIdx,
                                    right := leftIdx + 1,
                                    parax := (parax n AND 0xfffffff8) + axis,
                                    splitPos := center\<rparr>))\<lparr>nodePtr := nodePtr s2 + 2\<rparr>
                        in case subdivide fuel s3 leftIdx of
                             None \<Rightarrow> None
                           | Some s4 \<Rightarrow> subdivide fuel s4 (leftIdx + 1))))"

text \<open>The body of the loop of \<^verbatim>\<open>minRefit\<close> for node \<open>i\<close>.\<close>

definition minRefit_item :: "uint \<Rightarrow> nat \<Rightarrow> KDTree \<Rightarrow> KDTree" where
  "minRefit_item i j s =
     (let idx = tlasIdx s (first (node s i) + of_nat j);
          s1 = s\<lparr>leaf := (leaf s)(idx := i)\<rparr>;
          tlSize = vscale (1/2) (vsub (bmax (bounds s1 idx)) (bmin (bounds s1 idx)));
          C = vscale (1/2) (vadd (bmax (bounds s1 idx)) (bmin (bounds s1 idx)))
      in upd_node s1 i (\<lambda>n. n\<lparr>minSize := fminf (minSize n) tlSize,
              bmin := fminf (bmin n) C, bmax := fmaxf (bmax n) C\<rparr>))"

definition refit_from_children :: "KDTree \<Rightarrow> uint \<Rightarrow> KDTree" where
  "refit_from_children s i =
     (let s1 = upd_node s i (\<lambda>n. n\<lparr>minSize :=
                  fminf (minSize (node s (left n))) (minSize (node s (right n)))\<rparr>);
          s2 = upd_node s1 i (\<lambda>n. n\<lparr>bmin :=
                  fminf (bmin (node s1 (left n))) (bmin (node s1 (right n)))\<rparr>)
      in upd_node s2 i (\<lambda>n. n\<lparr>bmax :=
                  fmaxf (bmax (node s2 (left n))) (bmax (node s2 (right n)))\<rparr>))"

definition minRefit_node :: "KDTree \<Rightarrow> uint \<Rightarrow> KDTree" where
  "minRefit_node s i =
     (if isLeaf (node s i)
      then (let s1 = upd_node s i (\<lambda>n. n\<lparr>minSize := splat huge,
                         bmin := splat huge, bmax := splat (- huge)\<rparr>)
            in fold (minRefit_item i) [0..<unat (count (node s1 i))] s1)
      else refit_from_children s i)"

text \<open>
  \<^verbatim>\<open>for (int i = nodePtr - 1; i >= 0; i--)\<close>: the argument counts the nodes that are
  still to be visited, the next one being \<open>k - 1\<close>.
\<close>

primrec minRefit_loop :: "nat \<Rightarrow> KDTree \<Rightarrow> KDTree" where
  "minRefit_loop 0 s = s"
| "minRefit_loop (Suc k) s = minRefit_loop k (minRefit_node s (of_nat k))"

definition minRefit :: "KDTree \<Rightarrow> KDTree" where
  "minRefit s = minRefit_loop (nat (sint (nodePtr s - 1) + 1)) s"

text \<open>
  \<^verbatim>\<open>rebuild\<close>.  Its first loop, \<^verbatim>\<open>for (uint i = 1; i <= blasCount; i++)\<close>, does not
  end when \<^verbatim>\<open>blasCount\<close> is the largest \<^verbatim>\<open>uint\<close>; the timer and the
  \<^verbatim>\<open>printf\<close> are left out.
\<close>

definition rebuild_copy :: "nat \<Rightarrow> KDTree \<Rightarrow> KDTree" where
  "rebuild_copy i s =
     s\<lparr>tlasIdx := (tlasIdx s)(of_nat i - 1 := of_nat i),
       bounds := (bounds s)(of_nat i := \<lparr>bmin = aabbMin (tlas s (of_nat i)),
                                         bmax = aabbMax (tlas s (of_nat i))\<rparr>)\<rparr>"

definition rebuild_init :: "KDTree \<Rightarrow> KDTree" where
  "rebuild_init s =
     (let s1 = s\<lparr>tlasCount := blasCount s\<rparr>;
          s2 = fold rebuild_copy [1..<Suc (unat (blasCount s1))] s1;
          s3 = upd_node s2 0 (\<lambda>n. n\<lparr>left := 0, right := blasCount s2, parax := 7\<rparr>)
      in s3\<lparr>nodePtr := 1\<rparr>)"

definition rebuild :: "nat \<Rightarrow> KDTree \<Rightarrow> KDTree option" where
  "rebuild fuel s =
     (if blasCount s = - 1 then None
      else (case subdivide fuel (rebuild_init s) 0 of
              None \<Rightarrow> None
            | Some s5 \<Rightarrow> Some (minRefit s5)))"

text \<open>
  \<^verbatim>\<open>recurseRefit\<close> walks the parent indices up to node 0; the first argument bounds the
  number of steps.
\<close>

fun recurseRefit :: "nat \<Rightarrow> KDTree \<Rightarrow> uint \<Rightarrow> KDTree option" where
  "recurseRefit 0 s idx = (if idx = 0 then Some s else None)"
| "recurseRefit (Suc fuel) s idx =
     (if idx = 0 then Some s
      else (let p = drop_bit 3 (parax (node s idx))
            in recurseRefit fuel (refit_from_children s p) p))"

section \<open>The kD-tree: insertion and removal\<close>

text \<open>
  The \<^verbatim>\<open>while (1)\<close> loop of \<^verbatim>\<open>add\<close> does not change the tree until it has
  reached a leaf; \<open>add_descend\<close> is that descent, and returns the index of the leaf.
\<close>

fun add_descend :: "nat \<Rightarrow> KDTree \<Rightarrow> float3 \<Rightarrow> uint \<Rightarrow> uint option" where
  "add_descend 0 s P nidx = (if isLeaf (node s nidx) then Some nidx else None)"
| "add_descend (Suc fuel) s P nidx =
     (if isLeaf (node s nidx) then Some nidx
      else add_descend fuel s P
             (if at3 P (parax (node s nidx) AND 7) < splitPos (node s nidx)
              then left (node s nidx) else right (node s nidx)))"

definition redirect_leaf :: "uint \<Rightarrow> uint \<Rightarrow> nat \<Rightarrow> KDTree \<Rightarrow> KDTree" where
  "redirect_leaf src dst j s =
     s\<lparr>leaf := (leaf s)(tlasIdx s (first (node s src) + of_nat j) := dst)\<rparr>"

text \<open>
  The branch for a root that is a leaf.  The result is the state with the new values of
  \<^verbatim>\<open>nidx\<close> and \<^verbatim>\<open>intIdx\<close> and the point \<^verbatim>\<open>Pn\<close>.
\<close>

definition add_root :: "KDTree \<Rightarrow> uint \<Rightarrow> uint \<Rightarrow> KDTree \<times> uint \<times> uint \<times> float3" where
  "add_root s leafIdx intIdx =
     (let s1 = upd_node s intIdx (\<lambda>_. node s 0);
          s2 = upd_node s1 intIdx (\<lambda>n. n\<lparr>parax := parax n AND 7\<rparr>);
          s3 = upd_node s2 leafIdx (\<lambda>n. n\<lparr>parax := 7\<rparr>);
          Pn = centroid (node s3 intIdx);
          s4 = fold (redirect_leaf intIdx intIdx) [0..<unat (count (node s3 intIdx))] s3;
          s5 = upd_node s4 0 (\<lambda>n. n\<lparr>parax := 0\<rparr>)
      in (s5, intIdx, 0, Pn))"

text \<open>The branch for a leaf \<^verbatim>\<open>n = node[nidx]\<close> below the root.\<close>

definition add_inner :: "KDTree \<Rightarrow> uint \<Rightarrow> uint \<Rightarrow> uint \<Rightarrow> KDTree \<times> uint \<times> uint \<times> float3" where
  "add_inner s leafIdx intIdx nidx =
     (let pidx = drop_bit 3 (parax (node s nidx));
          s1 = upd_node s pidx
                 (\<lambda>n. if left n = nidx then n\<lparr>left := intIdx\<rparr> else n\<lparr>right := intIdx\<rparr>);
          s2 = upd_node s1 intIdx (\<lambda>n. n\<lparr>parax := parax (node s1 nidx) AND 0xfffffff8\<rparr>);
          s3 = upd_node s2 leafIdx (\<lambda>n. n\<lparr>parax := push_bit 3 intIdx + 7\<rparr>);
          s4 = upd_node s3 nidx (\<lambda>n. n\<lparr>parax := parax (node s3 leafIdx)\<rparr>);
          Pn = centroid (node s4 nidx)
      in (s4, nidx, intIdx, Pn))"

text \<open>The common end of both branches: axis, split position and the two children.\<close>

definition add_link :: "KDTree \<Rightarrow> uint \<Rightarrow> uint \<Rightarrow> uint \<Rightarrow> float3 \<Rightarrow> float3 \<Rightarrow> KDTree" where
  "add_link s leafIdx intIdx nidx P Pn =
     (let axis = dominantAxis (vsub P Pn);
          s1 = upd_node s intIdx (\<lambda>n. n\<lparr>parax := parax n + axis\<rparr>);
          s2 = upd_node s1 intIdx (\<lambda>n. n\<lparr>splitPos := at3 (vscale (1/2) (vadd Pn P)) axis\<rparr>)
      in upd_node s2 intIdx
           (\<lambda>n. if at3 P axis < splitPos n then n\<lparr>left := leafIdx, right := nidx\<rparr>
                else n\<lparr>right := leafIdx, left := nidx\<rparr>))"

text \<open>
  The first statements of \<^verbatim>\<open>add( idx )\<close>: the bounds of the new instance are
  captured, its index is appended to \<^verbatim>\<open>tlasIdx\<close>, and \<^verbatim>\<open>freed[0]\<close> is made a
  leaf for it.
\<close>

definition add_claim :: "KDTree \<Rightarrow> uint \<Rightarrow> KDTree" where
  "add_claim s idx =
     (let s1 = s\<lparr>bounds := (bounds s)(idx := \<lparr>bmin = aabbMin (tlas s idx),
                                              bmax = aabbMax (tlas s idx)\<rparr>)\<rparr>;
          C = centroid (bounds s1 idx);
          s2 = s1\<lparr>tlasIdx := (tlasIdx s1)(tlasCount s1 := idx), tlasCount := tlasCount s1 + 1\<rparr>;
          leafIdx = fst (freed s2);
          s3 = s2\<lparr>leaf := (leaf s2)(idx := leafIdx)\<rparr>
      in upd_node s3 leafIdx (\<lambda>n. n\<lparr>left := tlasCount s3 - 1, right := 1,
           bmin := C, bmax := C, minSize := halfSize (bounds s3 idx)\<rparr>))"

text \<open>
  \<^verbatim>\<open>add( idx )\<close>.  The first argument bounds the steps of the descent and of
  \<^verbatim>\<open>recurseRefit\<close>; \<open>None\<close> means that one of the two loops did not end within it.
\<close>

definition add :: "nat \<Rightarrow> KDTree \<Rightarrow> uint \<Rightarrow> KDTree option" where
  "add fuel s idx =
     (let s4 = add_claim s idx;
          leafIdx = fst (freed s4);
          intIdx = snd (freed s4);
          P = centroid (bounds s4 idx)
      in case add_descend fuel s4 P 0 of
           None \<Rightarrow> None
         | Some nidx \<Rightarrow>
             (let (s5, nidx', intIdx', Pn) =
                    (if nidx = 0 then add_root s4 leafIdx intIdx
                     else add_inner s4 leafIdx intIdx nidx);
                  s6 = add_link s5 leafIdx intIdx' nidx' P Pn
              in recurseRefit fuel s6 (leaf s6 idx)))"

text \<open>
  The loop of \<^verbatim>\<open>removeLeaf\<close> for a leaf with several instances; \<^verbatim>\<open>n.count\<close> is
  decremented inside the loop and read again by its test.
\<close>

function removeLeaf_loop :: "KDTree \<Rightarrow> uint \<Rightarrow> uint \<Rightarrow> uint \<Rightarrow> KDTree" where
  "removeLeaf_loop s nd idx j =
     (if j < count (node s nd)
      then (if tlasIdx s (first (node s nd) + j) = idx
            then removeLeaf_loop
                   (upd_node
                      (s\<lparr>tlasIdx := (tlasIdx s)(first (node s nd) + j :=
                            tlasIdx s (first (node s nd) + count (node s nd) - 1))\<rparr>)
                      nd (\<lambda>n. n\<lparr>right := count n - 1\<rparr>))
                   nd idx (j + 1)
            else removeLeaf_loop s nd idx (j + 1))
      else s)"
  by pat_completeness auto
termination
proof (relation "measure (\<lambda>(s, nd, idx, j). unat (count (node s nd)) - unat j)")
  fix s :: KDTree and nd idx j :: uint
  assume less: "j < count (node s nd)"
  have a: "unat (j + 1) = unat j + 1"
    using less by unat_arith
  have b: "unat (count (node s nd) - 1) = unat (count (node s nd)) - 1"
    using less by unat_arith
  have c: "unat j < unat (count (node s nd))"
    using less by (simp add: word_less_nat_alt)
  show "((upd_node
           (s\<lparr>tlasIdx := (tlasIdx s)(first (node s nd) + j :=
                 tlasIdx s (first (node s nd) + count (node s nd) - 1))\<rparr>)
           nd (\<lambda>n. n\<lparr>right := count n - 1\<rparr>),
       nd, idx, j + 1), s, nd, idx, j)
     \<in> measure (\<lambda>(s, nd, idx, j). unat (count (node s nd)) - unat j)"
    using a b c by (simp add: upd_node_def)
  show "((s, nd, idx, j + 1), s, nd, idx, j)
     \<in> measure (\<lambda>(s, nd, idx, j). unat (count (node s nd)) - unat j)"
    using a c by simp
qed simp

declare removeLeaf_loop.simps [simp del]

definition reparent :: "KDTree \<Rightarrow> uint \<Rightarrow> uint \<Rightarrow> KDTree" where
  "reparent s c p = upd_node s c (\<lambda>n. n\<lparr>parax := push_bit 3 p + (parax n AND 7)\<rparr>)"

definition removeLeaf :: "KDTree \<Rightarrow> uint \<Rightarrow> KDTree" where
  "removeLeaf s idx =
     (let toDelete = leaf s idx
      in if 1 < count (node s toDelete)
         then (let s1 = removeLeaf_loop s toDelete idx 0
               in s1\<lparr>freed := (nodePtr s1, nodePtr s1 + 1), nodePtr := nodePtr s1 + 2\<rparr>)
         else (let parentIdx = drop_bit 3 (parax (node s toDelete));
                   sibling = (if left (node s parentIdx) = toDelete
                              then right (node s parentIdx) else left (node s parentIdx));
                   s1 = upd_node s sibling (\<lambda>n. n\<lparr>parax :=
                           (parax (node s parentIdx) AND 0xfffffff8) + (parax n AND 7)\<rparr>);
                   s2 = upd_node s1 parentIdx (\<lambda>_. node s1 sibling);
                   s3 = (if isLeaf (node s2 parentIdx)
                         then fold (redirect_leaf parentIdx parentIdx)
                                [0..<unat (count (node s2 parentIdx))] s2
                         else (let sa = reparent s2 (left (node s2 parentIdx)) parentIdx
                               in reparent sa (right (node sa parentIdx)) parentIdx))
               in s3\<lparr>freed := (sibling, toDelete)\<rparr>))"

section \<open>The kD-tree: nearest neighbour\<close>

fun surfaceArea :: "float3 \<Rightarrow> float" where
  "surfaceArea (x, y, z) = fadd (fadd (fmul x y) (fmul y z)) (fmul z x)"

text \<open>
  One iteration of the loop over the instances of the leaf \<open>n\<close>.  The source takes the
  minimum of \<^verbatim>\<open>tlasAbmax4\<close> (not \<^verbatim>\<open>tlasAbmin4\<close>) and \<^verbatim>\<open>bounds[B].bmin4\<close>.
\<close>

definition FindNearest_item :: "KDTree \<Rightarrow> uint \<Rightarrow> uint \<Rightarrow> nat \<Rightarrow> uint \<times> xfloat \<Rightarrow> uint \<times> xfloat" where
  "FindNearest_item s A n i best =
     (let B = tlasIdx s (first (node s n) + of_nat i)
      in if B = A then best
         else (let tlasAbmax = bmax (bounds s A);
                   size = vsub (fmaxf tlasAbmax (bmax (bounds s B)))
                               (fminf tlasAbmax (bmin (bounds s B)));
                   SA = surfaceArea size
               in if xless (Finite SA) (snd best) then (B, Finite SA) else best))"

text \<open>The bound \<^verbatim>\<open>sa1\<close> (and \<^verbatim>\<open>sa2\<close>) computed for the child \<open>c\<close>.\<close>

definition childBound :: "KDTree \<Rightarrow> uint \<Rightarrow> uint \<Rightarrow> float" where
  "childBound s A c =
     (let tlasAbmin = bmin (bounds s A);
          tlasAbmax = bmax (bounds s A);
          Pa = vscale (1/2) (vadd tlasAbmin tlasAbmax);
          extentA = vsub tlasAbmax tlasAbmin;
          halfExtentA = vscale (1/2) (vsub tlasAbmax tlasAbmin);
          v0 = fmaxf (vsub (bmin (node s c)) Pa) (vsub Pa (bmax (node s c)));
          d = fmaxf extentA (vsub v0 (vadd (minSize (node s c)) halfExtentA))
      in surfaceArea d)"

text \<open>
  The sign bit of \<^verbatim>\<open>sa - smallestSA\<close>, as the source reads it from the bits of the
  difference.
\<close>

definition signOfDiff :: "float \<Rightarrow> xfloat \<Rightarrow> uint" where
  "signOfDiff sa smallestSA = (if xless (Finite sa) smallestSA then 1 else 0)"

text \<open>
  The two nested loops of \<^verbatim>\<open>FindNearest\<close> as one recursion over the visited nodes:
  the locals \<^verbatim>\<open>n\<close>, \<^verbatim>\<open>stackPtr\<close>, \<^verbatim>\<open>stack\<close>, \<^verbatim>\<open>bestB\<close> and
  \<^verbatim>\<open>smallestSA\<close> are arguments.  The tree is passed through, as the member functions of
  the source receive it.  \<open>None\<close> stands for a walk that does not end within the given
  number of node visits, and for a push onto the full stack of 60 entries, which the source
  does not check.
\<close>

fun FindNearest_walk ::
  "nat \<Rightarrow> KDTree \<Rightarrow> uint \<Rightarrow> uint \<Rightarrow> uint \<Rightarrow> (uint \<Rightarrow> uint) \<Rightarrow> uint \<times> xfloat
     \<Rightarrow> (KDTree \<times> uint \<times> xfloat) option" where
  "FindNearest_walk 0 s A n stackPtr stack best = None"
| "FindNearest_walk (Suc fuel) s A n stackPtr stack best =
     (if isLeaf (node s n)
      then (let best' = fold (FindNearest_item s A n) [0..<unat (count (node s n))] best
            in if stackPtr = 0 then Some (s, best')
               else FindNearest_walk fuel s A (stack (stackPtr - 1)) (stackPtr - 1) stack best')
      else (let Pa = vscale (1/2) (vadd (bmin (bounds s A)) (bmax (bounds s A)));
                flip = (splitPos (node s n) < at3 Pa (parax (node s n) AND 7));
                nearNode = (if flip then right (node s n) else left (node s n));
                farNode = (if flip then left (node s n) else right (node s n));
                sa1 = childBound s A nearNode;
                sa2 = childBound s A farNode;
                visit = signOfDiff sa1 (snd best) * 2 + signOfDiff sa2 (snd best)
            in if visit = 0
               then (if stackPtr = 0 then Some (s, best)
                     else FindNearest_walk fuel s A (stack (stackPtr - 1)) (stackPtr - 1) stack best)
               else if visit = 3
               then (if 60 \<le> stackPtr then None
                     else FindNearest_walk fuel s A nearNode (stackPtr + 1)
                            (stack(stackPtr := farNode)) best)
               else if visit = 2
               then FindNearest_walk fuel s A nearNode stackPtr stack best
               else FindNearest_walk fuel s A farNode stackPtr stack best))"

text \<open>
  \<^verbatim>\<open>FindNearest( A, startB, startSA )\<close>: the result is the tree, the final values of the
  two reference parameters, and the returned \<^verbatim>\<open>int\<close>.  Every stack entry that is
  read has been written before.
\<close>

definition FindNearest ::
  "nat \<Rightarrow> KDTree \<Rightarrow> uint \<Rightarrow> uint \<Rightarrow> xfloat \<Rightarrow> (KDTree \<times> uint \<times> xfloat \<times> int) option" where
  "FindNearest fuel s A startB startSA =
     (case FindNearest_walk fuel s A 0 0 (\<lambda>_. 0) (startB, startSA) of
        None \<Rightarrow> None
      | Some (s', bestB, smallestSA) \<Rightarrow> Some (s', bestB, smallestSA, sint bestB))"

section \<open>Boxes and their union\<close>

text \<open>
  The \<^verbatim>\<open>aabb\<close> struct of the header has the fields of \<open>Bounds\<close>; \<^verbatim>\<open>grow\<close> and
  \<^verbatim>\<open>area\<close> are its member functions.
\<close>

definition aabb_empty :: Bounds where
  "aabb_empty = \<lparr>bmin = splat huge, bmax = splat (- huge)\<rparr>"

definition grow_point :: "Bounds \<Rightarrow> float3 \<Rightarrow> Bounds" where
  "grow_point a p = a\<lparr>bmin := fminf (bmin a) p, bmax := fmaxf (bmax a) p\<rparr>"

definition grow :: "Bounds \<Rightarrow> Bounds \<Rightarrow> Bounds" where
  "grow a b = (if fst (bmin b) \<noteq> huge then grow_point (grow_point a (bmin b)) (bmax b) else a)"

definition area :: "Bounds \<Rightarrow> float" where
  "area a = surfaceArea (vsub (bmax a) (bmin a))"

text \<open>The area of the union of two boxes, \<open>area(union(a, b))\<close> in the specification.\<close>

definition unionArea :: "Bounds \<Rightarrow> Bounds \<Rightarrow> float" where
  "unionArea a b = area (grow (grow aabb_empty a) b)"

section \<open>Concrete scenes\<close>

text \<open>A TLAS leaf with the given box, and a store in which every cell is zero.\<close>

definition box :: "float3 \<Rightarrow> float3 \<Rightarrow> TLASNode" where
  "box lo hi = \<lparr>aabbMin = lo, leftRight = 0, aabbMax = hi, BLAS = 0\<rparr>"

definition storage0 :: KDTree where
  "storage0 = \<lparr>node = (\<lambda>_. zeroNode), tlas = (\<lambda>_. box (0, 0, 0) (0, 0, 0)),
     bounds = (\<lambda>_. \<lparr>bmin = (0, 0, 0), bmax = (0, 0, 0)\<rparr>), leaf = (\<lambda>_. 0),
     tlasIdx = (\<lambda>_. 0), nodePtr = 0, tlasCount = 0, blasCount = 0, freed = (0, 0)\<rparr>"

text \<open>
  Scene A: instance 1 is the cube from 0 to 10, instance 2 lies inside it, instance 3 is a
  small box at its far corner.
\<close>

definition sceneA :: "uint \<Rightarrow> TLASNode" where
  "sceneA = (\<lambda>_. box (0, 0, 0) (0, 0, 0))
     (1 := box (0, 0, 0) (10, 10, 10),
      2 := box (1, 0, 0) (10, 10, 10),
      3 := box (9, 9, 9) (12, 11, 11))"

definition kdA :: KDTree where
  "kdA = the (rebuild 3 (KDTree_ctor storage0 sceneA 3))"

text \<open>
  Scene B: two unit cubes; instance 1 is the one further along the x axis.
\<close>

definition sceneB :: "uint \<Rightarrow> TLASNode" where
  "sceneB = (\<lambda>_. box (0, 0, 0) (0, 0, 0))
     (1 := box (10, 0, 0) (11, 1, 1),
      2 := box (0, 0, 0) (1, 1, 1))"

definition kdB :: KDTree where
  "kdB = the (rebuild 2 (KDTree_ctor storage0 sceneB 2))"

text \<open>The state in which \<^verbatim>\<open>rebuild\<close> calls \<^verbatim>\<open>subdivide\<close> on scene A.\<close>

definition sA0 :: KDTree where
  "sA0 = rebuild_init (KDTree_ctor storage0 sceneA 3)"

section \<open>Predicates on trees\<close>

text \<open>
  The low three bits of a \<^verbatim>\<open>parax\<close> value are a leaf mark (7) or an axis (0, 1, 2);
  \<open>lowZ\<close> holds of the values to which \<^verbatim>\<open>add\<close> adds the axis.
\<close>

definition lowOK :: "uint \<Rightarrow> bool" where
  "lowOK p \<longleftrightarrow> p AND 7 \<in> {0, 1, 2, 7}"

definition lowZ :: "uint \<Rightarrow> bool" where
  "lowZ p \<longleftrightarrow> p AND 7 \<in> {0, 7}"

definition paraxOK :: "KDTree \<Rightarrow> bool" where
  "paraxOK s \<longleftrightarrow> (\<forall>i. lowOK (parax (node s i)))"

text \<open>Two states that differ in \<^verbatim>\<open>tlasIdx\<close> at most.\<close>

definition only_tlasIdx :: "KDTree \<Rightarrow> KDTree \<Rightarrow> bool" where
  "only_tlasIdx s s' \<longleftrightarrow> node s' = node s \<and> tlas s' = tlas s \<and> bounds s' = bounds s
     \<and> leaf s' = leaf s \<and> nodePtr s' = nodePtr s \<and> tlasCount s' = tlasCount s
     \<and> blasCount s' = blasCount s \<and> freed s' = freed s"

text \<open>
  \<open>perm_on W f g\<close>: the array \<open>g\<close> comes from \<open>f\<close> by exchanging entries at positions
  in \<open>W\<close>, any number of times.
\<close>

inductive perm_on :: "uint set \<Rightarrow> (uint \<Rightarrow> uint) \<Rightarrow> (uint \<Rightarrow> uint) \<Rightarrow> bool" for W f where
  perm_refl: "perm_on W f f"
| perm_swap: "perm_on W f g \<Longrightarrow> a \<in> W \<Longrightarrow> b \<in> W \<Longrightarrow> perm_on W f (g(a := g b, b := g a))"

text \<open>
  The coordinate on \<open>axis\<close> of the centroid of the instance at position \<open>w\<close> of
  \<^verbatim>\<open>tlasIdx\<close>, and the two sides of a split position: every instance in the range of
  the leaf \<open>n\<close> has its centroid at or below \<open>sp\<close> (left), or above it (right).
\<close>

definition key :: "KDTree \<Rightarrow> uint \<Rightarrow> uint \<Rightarrow> float" where
  "key s axis w = at3 (centroid (bounds s (tlasIdx s w))) axis"

definition leftSide :: "KDTree \<Rightarrow> KDNode \<Rightarrow> uint \<Rightarrow> float \<Rightarrow> bool" where
  "leftSide s n axis sp \<longleftrightarrow>
     list_all (\<lambda>k. key s axis (first n + of_nat k) \<le> sp) [0..<unat (count n)]"

definition rightSide :: "KDTree \<Rightarrow> KDNode \<Rightarrow> uint \<Rightarrow> float \<Rightarrow> bool" where
  "rightSide s n axis sp \<longleftrightarrow>
     list_all (\<lambda>k. sp < key s axis (first n + of_nat k)) [0..<unat (count n)]"

text \<open>
  The states of a tree: it is constructed and built by \<^verbatim>\<open>rebuild\<close>, then
  \<^verbatim>\<open>add\<close>, \<^verbatim>\<open>removeLeaf\<close> and \<^verbatim>\<open>rebuild\<close> are called in any order and
  with any arguments; the owner of the TLAS node array may write it between the calls.
\<close>

inductive reachable :: "KDTree \<Rightarrow> bool" where
  reach_rebuild: "rebuild fuel (KDTree_ctor storage tlasNodes N) = Some s \<Longrightarrow> reachable s"
| reach_again: "reachable s \<Longrightarrow> rebuild fuel s = Some s' \<Longrightarrow> reachable s'"
| reach_add: "reachable s \<Longrightarrow> add fuel s idx = Some s' \<Longrightarrow> reachable s'"
| reach_removeLeaf: "reachable s \<Longrightarrow> reachable (removeLeaf s idx)"
| reach_tlas: "reachable s \<Longrightarrow> reachable (s\<lparr>tlas := tlasNodes\<rparr>)"


section \<open>One step of \<^verbatim>\<open>subdivide\<close>\<close>

text \<open>
  The pieces of one call of \<^verbatim>\<open>subdivide\<close> on a node with at least two instances, named
  so that they can be reasoned about one at a time: the axis and the split position it
  computes from the refreshed bounds, the state after \<^verbatim>\<open>partition\<close>, and the state after
  the node has been turned into an interior node (just before the two recursive calls).
\<close>

definition split_axis :: "KDTree \<Rightarrow> uint \<Rightarrow> uint" where
  "split_axis s idx =
     (let n = node (subdivide_bounds s idx) idx in dominantAxis (vsub (bmax n) (bmin n)))"

definition split_center :: "KDTree \<Rightarrow> uint \<Rightarrow> float" where
  "split_center s idx =
     subdivide_center (subdivide_bounds s idx) (node (subdivide_bounds s idx) idx) (split_axis s idx)"

definition split_try :: "KDTree \<Rightarrow> uint \<Rightarrow> KDTree" where
  "split_try s idx = partition (subdivide_bounds s idx) idx (split_center s idx) (split_axis s idx)"

definition split_commit :: "KDTree \<Rightarrow> uint \<Rightarrow> KDTree" where
  "split_commit s idx =
     (upd_node (split_try s idx) idx (\<lambda>n. n\<lparr>left := nodePtr s, right := nodePtr s + 1,
        parax := (parax n AND 0xfffffff8) + split_axis s idx,
        splitPos := split_center s idx\<rparr>))\<lparr>nodePtr := nodePtr s + 2\<rparr>"

section \<open>The centroid range of a node, as the specification words it\<close>

text \<open>
  The centroids of the instances of a node, their componentwise minimum and maximum, the
  dominant axis of that range and the split position of the specification: the midpoint
  of the range for at most 150 instances, and otherwise \<open>r * lo + (1 - r) * hi\<close> with \<open>r\<close>
  the fraction of centroids at or below the midpoint, clamped to \<open>[0.15, 0.85]\<close>.
  \<open>inRange\<close> says that every centroid coordinate lies between the two sentinels
  \<^verbatim>\<open>-1e30\<close> and \<^verbatim>\<open>1e30\<close> with which the code starts its minimum and maximum.
\<close>

definition instCentroids :: "KDTree \<Rightarrow> KDNode \<Rightarrow> float3 list" where
  "instCentroids s n =
     map (\<lambda>k. centroid (bounds s (tlasIdx s (first n + of_nat k)))) [0..<unat (count n)]"

definition coords :: "uint \<Rightarrow> float3 list \<Rightarrow> float list" where
  "coords axis cs = map (\<lambda>C. at3 C axis) cs"

definition centroidMin :: "KDTree \<Rightarrow> KDNode \<Rightarrow> float3" where
  "centroidMin s n =
     (let cs = instCentroids s n
      in (Min (set (coords 0 cs)), Min (set (coords 1 cs)), Min (set (coords 2 cs))))"

definition centroidMax :: "KDTree \<Rightarrow> KDNode \<Rightarrow> float3" where
  "centroidMax s n =
     (let cs = instCentroids s n
      in (Max (set (coords 0 cs)), Max (set (coords 1 cs)), Max (set (coords 2 cs))))"

definition specAxis :: "KDTree \<Rightarrow> KDNode \<Rightarrow> uint" where
  "specAxis s n = dominantAxis (vsub (centroidMax s n) (centroidMin s n))"

definition specSplitPos :: "KDTree \<Rightarrow> KDNode \<Rightarrow> float" where
  "specSplitPos s n =
     (let lo = at3 (centroidMin s n) (specAxis s n);
          hi = at3 (centroidMax s n) (specAxis s n);
          mid = fmul (fadd lo hi) (1/2)
      in if unat (count n) \<le> 150 then mid
         else (let leftCount = length (filter (\<lambda>C. at3 C (specAxis s n) \<le> mid) (instCentroids s n));
                   r = max (f32 (15/100)) (min (f32 (85/100))
                         (fdiv (f32 (real leftCount)) (f32 (real (unat (count n))))))
               in fadd (fmul r lo) (fmul (fsub 1 r) hi)))"

definition inRange :: "KDTree \<Rightarrow> KDNode \<Rightarrow> bool" where
  "inRange s n \<longleftrightarrow>
     list_all (\<lambda>C. list_all (\<lambda>a. - huge \<le> at3 C a \<and> at3 C a \<le> huge) [0, 1, 2]) (instCentroids s n)"

section \<open>Predicates on the tree that \<^verbatim>\<open>rebuild\<close> makes\<close>














section \<open>Facts about rounding\<close>

text \<open>
  A number of which four times is an integer, and of magnitude at most \<open>2^21\<close>, is a
  binary32 number: rounding leaves it as it is.  The second equation is the one by which
  \<open>f32\<close> is evaluated.
\<close>

lemma expo_down_le: "expo_down n x e \<le> e"
proof (induction n arbitrary: x e)
  case 0
  show ?case by simp
next
  case (Suc n)
  from Suc [of "2 * x" "e - 1"] show ?case by simp
qed

lemma expo_up_le: "x < 2 ^ Suc k \<Longrightarrow> expo_up n x e \<le> e + int k"
proof (induction n arbitrary: x e k)
  case 0
  then show ?case by simp
next
  case (Suc n)
  show ?case
  proof (cases "x < 2")
    case True
    then show ?thesis by simp
  next
    case False
    with Suc.prems obtain j where k: "k = Suc j" by (cases k) auto
    have "x / 2 < 2 ^ Suc j" using Suc.prems unfolding k by simp
    from Suc.IH [OF this, of "e + 1"] False show ?thesis unfolding k by simp
  qed
qed

lemma expo_le: "\<bar>x\<bar> < 2 ^ Suc k \<Longrightarrow> expo x \<le> int k"
  unfolding expo_def using expo_up_le [of "\<bar>x\<bar>" k 127 0] expo_down_le [of 126 "\<bar>x\<bar>" 0]
  by (auto intro: order_trans)

lemma rne_int: "rne (of_int n) = n"
  by (simp add: rne_def)

lemma f32_quarter:
  assumes q: "of_int \<lfloor>4 * x\<rfloor> = 4 * x" and b: "\<bar>x\<bar> \<le> 2097152"
  shows "f32 x = x"
proof (cases "x = 0")
  case True
  then show ?thesis by (simp add: f32_def)
next
  case False
  define m where "m = \<lfloor>4 * x\<rfloor>"
  from q have m4: "of_int m = 4 * x" unfolding m_def .
  have "\<bar>x\<bar> < 2 ^ Suc 21" using b by simp
  then have e: "expo x \<le> 21" using expo_le [of x 21] by simp
  define j where "j = nat (21 - expo x)"
  have ex: "expo x - 23 = - int (j + 2)" using e unfolding j_def by simp
  have u: "pow2 (expo x - 23) = 1 / 2 ^ (j + 2)"
    unfolding ex pow2_def by (simp add: nat_add_distrib)
  have "x / pow2 (expo x - 23) = x * 2 ^ (j + 2)" unfolding u by simp
  also have "\<dots> = of_int (m * 2 ^ j)" by (simp add: m4 power_add)
  finally have "rne (x / pow2 (expo x - 23)) = m * 2 ^ j" by (simp only: rne_int)
  then have "f32 x = of_int (m * 2 ^ j) * pow2 (expo x - 23)"
    using False unfolding f32_def Let_def by simp
  also have "\<dots> = x" unfolding u by (simp add: m4 power_add)
  finally show ?thesis .
qed

lemma expo_up_eq:
  "2 ^ k \<le> x \<Longrightarrow> x < 2 ^ Suc k \<Longrightarrow> k \<le> n \<Longrightarrow> expo_up n x e = e + int k"
proof (induction n arbitrary: x e k)
  case 0
  then show ?case by simp
next
  case (Suc n)
  show ?case
  proof (cases k)
    case 0
    with Suc.prems show ?thesis by simp
  next
    case (Suc j)
    have "2 \<le> x" using Suc.prems(1) unfolding Suc
      by (rule order_trans [rotated]) simp
    moreover have "expo_up n (x / 2) (e + 1) = e + 1 + int j"
      by (rule Suc.IH) (use Suc.prems Suc in simp_all)
    ultimately show ?thesis unfolding Suc by simp
  qed
qed

lemma huge_f32: "huge = f32 (10 ^ 30)"
proof -
  have "expo_up 127 (10 ^ 30) 0 = 0 + int 99"
    by (rule expo_up_eq) simp_all
  then have e: "expo (10 ^ 30) = 99" by (simp add: expo_def)
  have u: "pow2 (99 - 23) = 2 ^ 76" by (simp add: pow2_def)
  have f: "\<lfloor>(10 ^ 30 :: real) / 2 ^ 76\<rfloor> = 13234889" by simp
  have "rne (10 ^ 30 / 2 ^ 76) = 13234890"
    unfolding rne_def Let_def f by simp
  then show ?thesis unfolding f32_def Let_def e u huge_def by simp
qed

lemma f32_code [code]:
  "f32 x = (if of_int \<lfloor>4 * x\<rfloor> = 4 * x \<and> \<bar>x\<bar> \<le> 2097152 then x
            else if x = 0 then 0
            else (let u = pow2 (expo x - 23) in of_int (rne (x / u)) * u))"
  using f32_quarter [of x] by (auto simp: f32_def)

section \<open>Facts about the packed field \<^verbatim>\<open>parax\<close>\<close>

lemma low3_uint: "uint ((x::uint) AND 7) = uint x mod 8"
proof -
  have "(7::uint) = mask 3" by (simp add: mask_eq_exp_minus_1)
  then have "x AND 7 = take_bit 3 x" by (simp add: take_bit_eq_mask)
  then have "uint (x AND 7) = take_bit 3 (uint x)" by (simp only: unsigned_take_bit_eq)
  then show ?thesis by (simp only: take_bit_eq_mod) simp
qed

lemma uint_add_mod8: "uint ((a::uint) + b) mod 8 = (uint a + uint b) mod 8"
proof -
  have "uint (a + b) = (uint a + uint b) mod 2 ^ 32"
    by (simp add: uint_word_ariths)
  moreover have "(8::int) dvd 2 ^ 32" by simp
  ultimately show ?thesis by (simp add: mod_mod_cancel)
qed

lemma uint_push3_mod8: "uint (push_bit 3 (x::uint)) mod 8 = 0"
proof -
  have "uint (push_bit 3 x) = (uint x * 8) mod 2 ^ 32"
    by (simp add: push_bit_eq_mult uint_word_ariths)
  moreover have "(8::int) dvd 2 ^ 32" by simp
  ultimately show ?thesis by (simp add: mod_mod_cancel)
qed

lemma hi_mask: "(p::uint) AND 0xfffffff8 = push_bit 3 (drop_bit 3 p)"
proof -
  have "(0xfffffff8::uint) = NOT (mask 3)" by (simp add: mask_eq_exp_minus_1)
  then have "p AND 0xfffffff8 = p AND NOT (mask 3)" by simp
  also have "\<dots> = push_bit 3 (drop_bit 3 p)"
    by (rule bit_word_eqI) (auto simp: bit_simps)
  finally show ?thesis .
qed

lemma low_push: "(push_bit 3 (x::uint) + y) AND 7 = y AND 7"
  by (rule word_uint_eqI)
    (simp add: low3_uint uint_add_mod8 [of "push_bit 3 x" y]
      mod_add_left_eq [symmetric, of "uint (push_bit 3 x)"] uint_push3_mod8)

lemma low_hi: "(((p::uint) AND 0xfffffff8) + a) AND 7 = a AND 7"
  by (simp only: hi_mask low_push)

lemma low_cases: "(x::uint) AND 7 \<in> {0, 1, 2, 3, 4, 5, 6, 7}"
proof -
  have "0 \<le> uint x mod 8" "uint x mod 8 < 8" by simp_all
  then have "uint (x AND 7) \<in> {0, 1, 2, 3, 4, 5, 6, 7}" unfolding low3_uint by auto
  then show ?thesis by (auto simp: word_uint_eq_iff)
qed

lemma low_add: "(p + a) AND 7 \<in> {0, 1, 2, 7::uint}" if "p AND 7 \<in> {0, 7}" "a \<in> {0, 1, 2}"
proof -
  have e: "uint ((p + a) AND 7) = (uint (p AND 7) + uint a) mod 8"
    by (simp add: low3_uint uint_add_mod8 mod_simps)
  have "uint ((p + a) AND 7) \<in> {0, 1, 2, 7}"
    using that unfolding e by auto
  then show ?thesis by (auto simp: word_uint_eq_iff)
qed


section \<open>The low bits of \<^verbatim>\<open>parax\<close> in every state\<close>

lemma lowOK_simps [simp]:
  "lowOK 0" "lowOK 7" "lowOK (push_bit 3 x + 7)"
  "lowOK (p AND 7) = lowOK p"
  "lowOK ((p AND 0xfffffff8) + (q AND 7)) = lowOK q"
  "lowOK (push_bit 3 x + (q AND 7)) = lowOK q"
  by (simp_all add: lowOK_def low_push low_hi word_bw_assocs)

lemma lowZ_simps [simp]:
  "lowZ 0" "lowZ 7" "lowZ (push_bit 3 x + 7)" "lowZ (p AND 0xfffffff8)"
  using low_hi [of p 0] by (simp_all add: lowZ_def low_push)

lemma lowOK_axis: "a \<in> {0, 1, 2} \<Longrightarrow> lowOK ((p AND 0xfffffff8) + a)"
  unfolding lowOK_def low_hi by auto

lemma lowOK_add: "lowZ p \<Longrightarrow> a \<in> {0, 1, 2} \<Longrightarrow> lowOK (p + a)"
  unfolding lowOK_def lowZ_def by (rule low_add)

lemma node_upd_node [simp]:
  "node (upd_node s i f) k = (if k = i then f (node s i) else node s k)"
  by (simp add: upd_node_def)

lemma upd_node_rest [simp]:
  "tlas (upd_node s i f) = tlas s" "bounds (upd_node s i f) = bounds s"
  "leaf (upd_node s i f) = leaf s" "tlasIdx (upd_node s i f) = tlasIdx s"
  "nodePtr (upd_node s i f) = nodePtr s" "tlasCount (upd_node s i f) = tlasCount s"
  "blasCount (upd_node s i f) = blasCount s" "freed (upd_node s i f) = freed s"
  by (simp_all add: upd_node_def)

lemma paraxOK_upd_node:
  "paraxOK s \<Longrightarrow> lowOK (parax (f (node s i))) \<Longrightarrow> paraxOK (upd_node s i f)"
  by (simp add: paraxOK_def)

lemma paraxOK_other [simp]:
  "paraxOK (s\<lparr>tlas := a\<rparr>) = paraxOK s" "paraxOK (s\<lparr>bounds := b\<rparr>) = paraxOK s"
  "paraxOK (s\<lparr>leaf := c\<rparr>) = paraxOK s" "paraxOK (s\<lparr>tlasIdx := d\<rparr>) = paraxOK s"
  "paraxOK (s\<lparr>nodePtr := e\<rparr>) = paraxOK s" "paraxOK (s\<lparr>tlasCount := e\<rparr>) = paraxOK s"
  "paraxOK (s\<lparr>blasCount := e\<rparr>) = paraxOK s" "paraxOK (s\<lparr>freed := g\<rparr>) = paraxOK s"
  by (simp_all add: paraxOK_def)

lemma dominantAxis_range: "dominantAxis w \<in> {0, 1, 2}"
  by (cases w) auto


lemma fold_grow_fields:
  "parax (fold (subdivide_grow s f) xs n) = parax n
   \<and> left (fold (subdivide_grow s f) xs n) = left n
   \<and> right (fold (subdivide_grow s f) xs n) = right n
   \<and> splitPos (fold (subdivide_grow s f) xs n) = splitPos n"
  by (induction xs arbitrary: n) (simp_all add: subdivide_grow_def Let_def)

lemma subdivide_bounds_fields:
  "parax (node (subdivide_bounds s idx) i) = parax (node s i)
   \<and> left (node (subdivide_bounds s idx) i) = left (node s i)
   \<and> right (node (subdivide_bounds s idx) i) = right (node s i)
   \<and> splitPos (node (subdivide_bounds s idx) i) = splitPos (node s i)"
  by (simp add: subdivide_bounds_def fold_grow_fields)

lemma subdivide_bounds_rest:
  "tlasIdx (subdivide_bounds s idx) = tlasIdx s \<and> bounds (subdivide_bounds s idx) = bounds s
   \<and> nodePtr (subdivide_bounds s idx) = nodePtr s \<and> leaf (subdivide_bounds s idx) = leaf s
   \<and> tlas (subdivide_bounds s idx) = tlas s \<and> tlasCount (subdivide_bounds s idx) = tlasCount s
   \<and> blasCount (subdivide_bounds s idx) = blasCount s \<and> freed (subdivide_bounds s idx) = freed s"
  by (simp add: subdivide_bounds_def Let_def)

lemma only_tlasIdx_swap: "only_tlasIdx s (swap s a b)"
  by (simp add: only_tlasIdx_def swap_def)

lemma only_tlasIdx_trans: "only_tlasIdx s s1 \<Longrightarrow> only_tlasIdx s1 s2 \<Longrightarrow> only_tlasIdx s s2"
  by (simp add: only_tlasIdx_def)

lemma partition_loop_frame: "only_tlasIdx s (fst (partition_loop s sp axis fi la))"
proof (induction s sp axis fi la rule: partition_loop.induct)
  case (1 s sp axis fi la)
  show ?case
  proof (cases "sp < at3 (centroid (bounds s (tlasIdx s (word_of_int fi)))) axis")
    case True
    note gt = this
    let ?s' = "swap s (word_of_int fi) (word_of_int (la - 1))"
    show ?thesis
    proof (cases "la - 1 \<le> fi")
      case True
      with gt only_tlasIdx_swap [of s "word_of_int fi" "word_of_int (la - 1)"] show ?thesis
        by (subst partition_loop.simps) (simp add: Let_def)
    next
      case False
      from 1(1) [OF refl gt refl False] only_tlasIdx_swap [of s "word_of_int fi" "word_of_int (la - 1)"]
      have "only_tlasIdx s (fst (partition_loop ?s' sp axis fi (la - 1)))"
        by (blast intro: only_tlasIdx_trans)
      with gt False show ?thesis
        by (subst partition_loop.simps) (simp add: Let_def)
    qed
  next
    case False
    note le = this
    show ?thesis
    proof (cases "la \<le> fi + 1")
      case True
      with le show ?thesis
        by (subst partition_loop.simps) (simp add: Let_def only_tlasIdx_def)
    next
      case False
      with le 1(2) [OF refl le False] show ?thesis
        by (subst partition_loop.simps) (simp add: Let_def)
    qed
  qed
qed

lemma partition_parax:
  "parax (node (partition s idx sp axis) i) =
     (if i = nodePtr s \<or> i = nodePtr s + 1 then push_bit 3 idx + 7 else parax (node s i))"
  using partition_loop_frame [of s sp axis "sint (first (node s idx))" "sint (first (node s idx)) + sint (count (node s idx))"]
  by (auto simp: partition_def Let_def only_tlasIdx_def split: prod.splits)

lemma partition_nodePtr: "nodePtr (partition s idx sp axis) = nodePtr s"
  using partition_loop_frame [of s sp axis "sint (first (node s idx))" "sint (first (node s idx)) + sint (count (node s idx))"]
  by (auto simp: partition_def Let_def only_tlasIdx_def split: prod.splits)

lemma paraxOK_partition: "paraxOK s \<Longrightarrow> paraxOK (partition s idx sp axis)"
  by (simp add: paraxOK_def partition_parax)

lemma paraxOK_subdivide_bounds: "paraxOK s \<Longrightarrow> paraxOK (subdivide_bounds s idx)"
  by (simp add: paraxOK_def subdivide_bounds_fields)

lemma paraxOK_subdivide: "paraxOK s \<Longrightarrow> subdivide fuel s idx = Some s' \<Longrightarrow> paraxOK s'"
proof (induction fuel arbitrary: s idx s')
  case 0
  then show ?case by simp
next
  case (Suc fuel)
  let ?s1 = "subdivide_bounds s idx"
  let ?n = "node ?s1 idx"
  let ?axis = "dominantAxis (vsub (bmax ?n) (bmin ?n))"
  let ?s2 = "partition ?s1 idx (subdivide_center ?s1 ?n ?axis) ?axis"
  let ?s3 = "(upd_node ?s2 idx (\<lambda>n. n\<lparr>left := nodePtr ?s2,
               right := nodePtr ?s2 + 1, parax := (parax n AND 0xfffffff8) + ?axis,
               splitPos := subdivide_center ?s1 ?n ?axis\<rparr>))\<lparr>nodePtr := nodePtr ?s2 + 2\<rparr>"
  have ok1: "paraxOK ?s1" using Suc.prems(1) by (rule paraxOK_subdivide_bounds)
  then have ok2: "paraxOK ?s2" by (rule paraxOK_partition)
  have "lowOK ((parax (node ?s2 idx) AND 0xfffffff8) + ?axis)"
    by (rule lowOK_axis [OF dominantAxis_range])
  then have "paraxOK (upd_node ?s2 idx (\<lambda>n. n\<lparr>left := nodePtr ?s2,
               right := nodePtr ?s2 + 1, parax := (parax n AND 0xfffffff8) + ?axis,
               splitPos := subdivide_center ?s1 ?n ?axis\<rparr>))"
    using ok2 by (intro paraxOK_upd_node) simp_all
  then have ok3: "paraxOK ?s3" by simp
  show ?case
  proof (cases "count ?n < 2")
    case True
    with Suc.prems(2) ok1 show ?thesis by (simp add: Let_def)
  next
    case False
    note big = this
    show ?thesis
    proof (cases "count (node ?s2 (nodePtr ?s2)) = 0 \<or> count (node ?s2 (nodePtr ?s2 + 1)) = 0")
      case True
      with Suc.prems(2) big ok2 show ?thesis by (simp add: Let_def)
    next
      case False
      with Suc.prems(2) big obtain s4 where
        l: "subdivide fuel ?s3 (nodePtr ?s2) = Some s4" and
        r: "subdivide fuel s4 (nodePtr ?s2 + 1) = Some s'"
        by (simp add: Let_def split: option.splits)
      from Suc.IH [OF ok3 l] have "paraxOK s4" .
      from Suc.IH [OF this r] show ?thesis .
    qed
  qed
qed

lemma fold_minRefit_item_fields:
  "parax (node (fold (minRefit_item i) xs s) k) = parax (node s k)
   \<and> left (node (fold (minRefit_item i) xs s) k) = left (node s k)
   \<and> right (node (fold (minRefit_item i) xs s) k) = right (node s k)
   \<and> splitPos (node (fold (minRefit_item i) xs s) k) = splitPos (node s k)
   \<and> tlasIdx (fold (minRefit_item i) xs s) = tlasIdx s
   \<and> bounds (fold (minRefit_item i) xs s) = bounds s
   \<and> nodePtr (fold (minRefit_item i) xs s) = nodePtr s"
  by (induction xs arbitrary: s) (simp_all add: minRefit_item_def Let_def)

lemma refit_from_children_fields:
  "parax (node (refit_from_children s i) k) = parax (node s k)
   \<and> left (node (refit_from_children s i) k) = left (node s k)
   \<and> right (node (refit_from_children s i) k) = right (node s k)
   \<and> splitPos (node (refit_from_children s i) k) = splitPos (node s k)
   \<and> tlasIdx (refit_from_children s i) = tlasIdx s
   \<and> bounds (refit_from_children s i) = bounds s
   \<and> leaf (refit_from_children s i) = leaf s
   \<and> nodePtr (refit_from_children s i) = nodePtr s"
  by (simp add: refit_from_children_def Let_def)

lemma minRefit_node_fields:
  "parax (node (minRefit_node s i) k) = parax (node s k)
   \<and> left (node (minRefit_node s i) k) = left (node s k)
   \<and> right (node (minRefit_node s i) k) = right (node s k)
   \<and> splitPos (node (minRefit_node s i) k) = splitPos (node s k)
   \<and> tlasIdx (minRefit_node s i) = tlasIdx s
   \<and> bounds (minRefit_node s i) = bounds s
   \<and> nodePtr (minRefit_node s i) = nodePtr s"
  by (simp add: minRefit_node_def Let_def fold_minRefit_item_fields refit_from_children_fields)

lemma minRefit_loop_fields:
  "parax (node (minRefit_loop m s) k) = parax (node s k)
   \<and> left (node (minRefit_loop m s) k) = left (node s k)
   \<and> right (node (minRefit_loop m s) k) = right (node s k)
   \<and> splitPos (node (minRefit_loop m s) k) = splitPos (node s k)
   \<and> tlasIdx (minRefit_loop m s) = tlasIdx s
   \<and> bounds (minRefit_loop m s) = bounds s
   \<and> nodePtr (minRefit_loop m s) = nodePtr s"
  by (induction m arbitrary: s) (simp_all add: minRefit_node_fields)

lemma minRefit_fields:
  "parax (node (minRefit s) k) = parax (node s k)
   \<and> left (node (minRefit s) k) = left (node s k)
   \<and> right (node (minRefit s) k) = right (node s k)
   \<and> splitPos (node (minRefit s) k) = splitPos (node s k)
   \<and> tlasIdx (minRefit s) = tlasIdx s
   \<and> bounds (minRefit s) = bounds s
   \<and> nodePtr (minRefit s) = nodePtr s"
  by (simp add: minRefit_def minRefit_loop_fields)

lemma fold_rebuild_copy_node: "node (fold rebuild_copy xs s) = node s"
  by (induction xs arbitrary: s) (simp_all add: rebuild_copy_def)

lemma paraxOK_rebuild_init: "paraxOK s \<Longrightarrow> paraxOK (rebuild_init s)"
  unfolding rebuild_init_def Let_def paraxOK_other
  by (rule paraxOK_upd_node) (simp_all add: paraxOK_def fold_rebuild_copy_node del: upt_Suc)

lemma paraxOK_rebuild: "paraxOK s \<Longrightarrow> rebuild fuel s = Some s' \<Longrightarrow> paraxOK s'"
proof -
  assume ok: "paraxOK s" and r: "rebuild fuel s = Some s'"
  from r obtain s5 where s5: "subdivide fuel (rebuild_init s) 0 = Some s5" and s': "s' = minRefit s5"
    by (auto simp: rebuild_def split: if_splits option.splits)
  from paraxOK_subdivide [OF paraxOK_rebuild_init [OF ok] s5] show ?thesis
    by (simp add: s' paraxOK_def minRefit_fields)
qed

lemma paraxOK_ctor: "paraxOK (KDTree_ctor storage tlasNodes N)"
  by (simp add: paraxOK_def KDTree_ctor_def zeroNode_def)

lemma paraxOK_recurseRefit: "paraxOK s \<Longrightarrow> recurseRefit fuel s idx = Some s' \<Longrightarrow> paraxOK s'"
proof (induction fuel arbitrary: s idx)
  case 0
  then show ?case by (simp split: if_splits)
next
  case (Suc fuel)
  show ?case
  proof (cases "idx = 0")
    case True
    with Suc.prems show ?thesis by simp
  next
    case False
    let ?p = "drop_bit 3 (parax (node s idx))"
    have "paraxOK (refit_from_children s ?p)"
      using Suc.prems(1) by (simp add: paraxOK_def refit_from_children_fields)
    moreover from Suc.prems(2) False have "recurseRefit fuel (refit_from_children s ?p) ?p = Some s'"
      by (simp add: Let_def)
    ultimately show ?thesis by (rule Suc.IH)
  qed
qed

lemma fold_redirect_leaf_node: "node (fold (redirect_leaf a b) xs s) = node s"
  by (induction xs arbitrary: s) (simp_all add: redirect_leaf_def)

lemma paraxOK_fold_redirect [simp]: "paraxOK (fold (redirect_leaf a b) xs s) = paraxOK s"
  by (simp add: paraxOK_def fold_redirect_leaf_node)

lemma paraxOK_low: "paraxOK s \<Longrightarrow> lowOK (parax (node s i))"
  by (simp add: paraxOK_def)

lemma paraxOK_add_root:
  assumes ok: "paraxOK s"
  shows "paraxOK (fst (add_root s leafIdx intIdx))
    \<and> lowZ (parax (node (fst (add_root s leafIdx intIdx)) (fst (snd (snd (add_root s leafIdx intIdx))))))"
proof -
  let ?s1 = "upd_node s intIdx (\<lambda>_. node s 0)"
  let ?s2 = "upd_node ?s1 intIdx (\<lambda>n. n\<lparr>parax := parax n AND 7\<rparr>)"
  let ?s3 = "upd_node ?s2 leafIdx (\<lambda>n. n\<lparr>parax := 7\<rparr>)"
  let ?s4 = "fold (redirect_leaf intIdx intIdx) [0..<unat (count (node ?s3 intIdx))] ?s3"
  have 1: "paraxOK ?s1"
    by (rule paraxOK_upd_node [OF ok]) (simp add: paraxOK_low [OF ok])
  have 2: "paraxOK ?s2"
    by (rule paraxOK_upd_node [OF 1]) (simp add: paraxOK_low [OF ok])
  have 3: "paraxOK ?s3"
    by (rule paraxOK_upd_node [OF 2]) simp
  have 4: "paraxOK ?s4" using 3 by simp
  have 5: "paraxOK (upd_node ?s4 0 (\<lambda>n. n\<lparr>parax := 0\<rparr>))"
    by (rule paraxOK_upd_node [OF 4]) simp
  show ?thesis
    unfolding add_root_def Let_def fst_conv snd_conv using 5 by simp
qed

lemma paraxOK_add_inner:
  assumes ok: "paraxOK s"
  shows "paraxOK (fst (add_inner s leafIdx intIdx nidx))
    \<and> lowZ (parax (node (fst (add_inner s leafIdx intIdx nidx))
          (fst (snd (snd (add_inner s leafIdx intIdx nidx))))))"
proof -
  let ?pidx = "drop_bit 3 (parax (node s nidx))"
  let ?s1 = "upd_node s ?pidx
               (\<lambda>n. if left n = nidx then n\<lparr>left := intIdx\<rparr> else n\<lparr>right := intIdx\<rparr>)"
  let ?s2 = "upd_node ?s1 intIdx (\<lambda>n. n\<lparr>parax := parax (node ?s1 nidx) AND 0xfffffff8\<rparr>)"
  let ?s3 = "upd_node ?s2 leafIdx (\<lambda>n. n\<lparr>parax := push_bit 3 intIdx + 7\<rparr>)"
  let ?s4 = "upd_node ?s3 nidx (\<lambda>n. n\<lparr>parax := parax (node ?s3 leafIdx)\<rparr>)"
  have 1: "paraxOK ?s1"
    by (rule paraxOK_upd_node [OF ok]) (simp add: paraxOK_low [OF ok])
  have 2: "paraxOK ?s2"
    by (rule paraxOK_upd_node [OF 1]) (use lowOK_axis [of 0] in simp)
  have 3: "paraxOK ?s3"
    by (rule paraxOK_upd_node [OF 2]) simp
  have 4: "paraxOK ?s4"
    by (rule paraxOK_upd_node [OF 3]) simp
  have l4: "lowZ (parax (node ?s4 intIdx))"
    by simp
  show ?thesis
    unfolding add_inner_def Let_def fst_conv snd_conv using 4 l4 by simp
qed

lemma paraxOK_add_link:
  assumes ok: "paraxOK s" and "lowZ (parax (node s intIdx))"
  shows "paraxOK (add_link s leafIdx intIdx nidx P Pn)"
proof -
  let ?axis = "dominantAxis (vsub P Pn)"
  let ?s1 = "upd_node s intIdx (\<lambda>n. n\<lparr>parax := parax n + ?axis\<rparr>)"
  let ?s2 = "upd_node ?s1 intIdx (\<lambda>n. n\<lparr>splitPos := at3 (vscale (1/2) (vadd Pn P)) ?axis\<rparr>)"
  have 1: "paraxOK ?s1"
    by (rule paraxOK_upd_node [OF ok])
      (use lowOK_add [OF assms(2) dominantAxis_range [of "vsub P Pn"]] in simp)
  have 2: "paraxOK ?s2"
    by (rule paraxOK_upd_node [OF 1]) (use paraxOK_low [OF 1, of intIdx] in simp)
  have "paraxOK (upd_node ?s2 intIdx
           (\<lambda>n. if at3 P ?axis < splitPos n then n\<lparr>left := leafIdx, right := nidx\<rparr>
                else n\<lparr>right := leafIdx, left := nidx\<rparr>))"
    by (rule paraxOK_upd_node [OF 2]) (use paraxOK_low [OF 2, of intIdx] in simp)
  then show ?thesis by (simp add: add_link_def Let_def)
qed

lemma paraxOK_add_claim: "paraxOK s \<Longrightarrow> paraxOK (add_claim s idx)"
  unfolding add_claim_def Let_def
  by (rule paraxOK_upd_node) (simp_all add: paraxOK_low)

lemma paraxOK_add:
  assumes ok: "paraxOK s" and a: "add fuel s idx = Some s'"
  shows "paraxOK s'"
proof -
  let ?s4 = "add_claim s idx"
  let ?leafIdx = "fst (freed ?s4)"
  let ?intIdx = "snd (freed ?s4)"
  let ?P = "centroid (bounds ?s4 idx)"
  have ok4: "paraxOK ?s4" using ok by (rule paraxOK_add_claim)
  from a obtain nidx where d: "add_descend fuel ?s4 ?P 0 = Some nidx"
    by (cases "add_descend fuel ?s4 ?P 0") (simp_all add: add_def Let_def)
  obtain s5 nidx' intIdx' Pn where b: "(if nidx = 0 then add_root ?s4 ?leafIdx ?intIdx
      else add_inner ?s4 ?leafIdx ?intIdx nidx) = (s5, nidx', intIdx', Pn)"
    using prod_cases4 by blast
  have ok5: "paraxOK s5 \<and> lowZ (parax (node s5 intIdx'))"
  proof (cases "nidx = 0")
    case True
    with b have "add_root ?s4 ?leafIdx ?intIdx = (s5, nidx', intIdx', Pn)" by simp
    with paraxOK_add_root [OF ok4, of ?leafIdx ?intIdx] show ?thesis by simp
  next
    case False
    with b have "add_inner ?s4 ?leafIdx ?intIdx nidx = (s5, nidx', intIdx', Pn)" by simp
    with paraxOK_add_inner [OF ok4, of ?leafIdx ?intIdx nidx] show ?thesis by simp
  qed
  let ?s6 = "add_link s5 ?leafIdx intIdx' nidx' ?P Pn"
  have ok6: "paraxOK ?s6" using ok5 by (simp add: paraxOK_add_link)
  from a have "recurseRefit fuel ?s6 (leaf ?s6 idx) = Some s'"
    unfolding add_def Let_def d option.case b prod.case .
  with ok6 show ?thesis by (rule paraxOK_recurseRefit)
qed

lemma paraxOK_removeLeaf_loop: "paraxOK s \<Longrightarrow> paraxOK (removeLeaf_loop s nd idx j)"
proof (induction s nd idx j rule: removeLeaf_loop.induct)
  case (1 s nd idx j)
  show ?case
  proof (cases "j < count (node s nd)")
    case False
    with 1(3) show ?thesis by (subst removeLeaf_loop.simps) simp
  next
    case True
    note lt = this
    show ?thesis
    proof (cases "tlasIdx s (first (node s nd) + j) = idx")
      case True
      let ?s' = "upd_node (s\<lparr>tlasIdx := (tlasIdx s)(first (node s nd) + j :=
                   tlasIdx s (first (node s nd) + count (node s nd) - 1))\<rparr>)
                   nd (\<lambda>n. n\<lparr>right := count n - 1\<rparr>)"
      have "paraxOK ?s'"
        by (rule paraxOK_upd_node) (use 1(3) in \<open>simp_all add: paraxOK_low\<close>)
      from 1(1) [OF lt True this] lt True show ?thesis
        by (subst removeLeaf_loop.simps) simp
    next
      case False
      from 1(2) [OF lt False 1(3)] lt False show ?thesis
        by (subst removeLeaf_loop.simps) simp
    qed
  qed
qed

lemma paraxOK_reparent: "paraxOK s \<Longrightarrow> paraxOK (reparent s c p)"
  unfolding reparent_def by (rule paraxOK_upd_node) (simp_all add: paraxOK_low)

lemma paraxOK_removeLeaf: 
  assumes ok: "paraxOK s"
  shows "paraxOK (removeLeaf s idx)"
proof (cases "1 < count (node s (leaf s idx))")
  case True
  then show ?thesis
    using paraxOK_removeLeaf_loop [OF ok, of "leaf s idx" idx 0]
    by (simp add: removeLeaf_def Let_def)
next
  case False
  let ?toDelete = "leaf s idx"
  let ?parentIdx = "drop_bit 3 (parax (node s ?toDelete))"
  let ?sibling = "if left (node s ?parentIdx) = ?toDelete
                  then right (node s ?parentIdx) else left (node s ?parentIdx)"
  let ?s1 = "upd_node s ?sibling (\<lambda>n. n\<lparr>parax :=
               (parax (node s ?parentIdx) AND 0xfffffff8) + (parax n AND 7)\<rparr>)"
  let ?s2 = "upd_node ?s1 ?parentIdx (\<lambda>_. node ?s1 ?sibling)"
  let ?s3 = "if isLeaf (node ?s2 ?parentIdx)
             then fold (redirect_leaf ?parentIdx ?parentIdx)
                    [0..<unat (count (node ?s2 ?parentIdx))] ?s2
             else (let sa = reparent ?s2 (left (node ?s2 ?parentIdx)) ?parentIdx
                   in reparent sa (right (node sa ?parentIdx)) ?parentIdx)"
  have 1: "paraxOK ?s1"
    by (rule paraxOK_upd_node [OF ok]) (simp add: paraxOK_low [OF ok])
  have 2: "paraxOK ?s2"
    by (rule paraxOK_upd_node [OF 1]) (rule paraxOK_low [OF 1])
  have 3: "paraxOK ?s3"
    using 2 by (simp add: Let_def paraxOK_reparent del: node_upd_node)
  have "removeLeaf s idx = ?s3\<lparr>freed := (?sibling, ?toDelete)\<rparr>"
    using False unfolding removeLeaf_def Let_def by (simp only: if_False)
  with 3 show ?thesis by (simp del: node_upd_node)
qed

lemma reachable_paraxOK: "reachable s \<Longrightarrow> paraxOK s"
proof (induction rule: reachable.induct)
  case (reach_rebuild fuel storage tlasNodes N s)
  then show ?case using paraxOK_ctor paraxOK_rebuild by blast
next
  case (reach_again s fuel s')
  then show ?case using paraxOK_rebuild by blast
next
  case (reach_add s fuel idx s')
  then show ?case using paraxOK_add by blast
next
  case (reach_removeLeaf s idx)
  then show ?case by (simp add: paraxOK_removeLeaf)
next
  case (reach_tlas s tlasNodes)
  then show ?case by simp
qed


section \<open>The loop of \<^verbatim>\<open>partition\<close>\<close>

lemma word_of_int_inj_range:
  assumes "f0 \<le> p" "p < hi" "f0 \<le> q" "q < hi" "hi - f0 \<le> 2 ^ 32"
    and "(word_of_int p :: uint) = word_of_int q"
  shows "p = q"
proof -
  from assms(6) have "p mod 2 ^ 32 = q mod 2 ^ 32"
    by (simp add: word_of_int_eq_iff take_bit_eq_mod)
  then have "(2 ^ 32 :: int) dvd p - q"
    by (simp add: mod_eq_dvd_iff)
  then obtain c where c: "p - q = 2 ^ 32 * c" by (auto simp: dvd_def)
  have "\<bar>p - q\<bar> < 2 ^ 32" using assms(1-5) by linarith
  with c have "c = 0" by (cases "c = 0") (auto simp: abs_mult)
  with c show ?thesis by simp
qed

lemma perm_on_trans: "perm_on W g h \<Longrightarrow> perm_on W f g \<Longrightarrow> perm_on W f h"
  by (induction rule: perm_on.induct) (auto intro: perm_on.intros)

lemma perm_on_swap1: "a \<in> W \<Longrightarrow> b \<in> W \<Longrightarrow> perm_on W f (f(a := f b, b := f a))"
  by (rule perm_swap [OF perm_refl])

lemma perm_on_outside: "perm_on W f g \<Longrightarrow> w \<notin> W \<Longrightarrow> g w = f w"
  by (induction rule: perm_on.induct) auto


lemma key_swap:
  "key (swap s a b) axis w = key s axis (if w = b then a else if w = a then b else w)"
  by (simp add: key_def swap_def)

lemma perm_on_swap_state:
  "a \<in> W \<Longrightarrow> b \<in> W \<Longrightarrow> perm_on W (tlasIdx s) (tlasIdx (swap s a b))"
  by (simp add: swap_def perm_on_swap1)

lemma perm_on_after_swap:
  "a \<in> W \<Longrightarrow> b \<in> W \<Longrightarrow> perm_on W (tlasIdx (swap s a b)) g \<Longrightarrow> perm_on W (tlasIdx s) g"
  by (rule perm_on_trans [OF _ perm_on_swap_state])

lemma partition_loop_sides:
  assumes "f0 \<le> fi" "fi < la" "la \<le> hi" "hi - f0 \<le> 2 ^ 32"
    and "\<forall>p. f0 \<le> p \<and> p < fi \<longrightarrow> key s axis (word_of_int p) \<le> sp"
    and "\<forall>p. la \<le> p \<and> p < hi \<longrightarrow> sp < key s axis (word_of_int p)"
  shows "fi \<le> snd (partition_loop s sp axis fi la) \<and> snd (partition_loop s sp axis fi la) \<le> la
    \<and> (\<forall>p. f0 \<le> p \<and> p < snd (partition_loop s sp axis fi la)
          \<longrightarrow> key (fst (partition_loop s sp axis fi la)) axis (word_of_int p) \<le> sp)
    \<and> (\<forall>p. snd (partition_loop s sp axis fi la) \<le> p \<and> p < hi
          \<longrightarrow> sp < key (fst (partition_loop s sp axis fi la)) axis (word_of_int p))
    \<and> perm_on (word_of_int ` {f0..<hi}) (tlasIdx s) (tlasIdx (fst (partition_loop s sp axis fi la)))"
  using assms
proof (induction s sp axis fi la rule: partition_loop.induct)
  case (1 s sp axis fi la)
  let ?W = "word_of_int ` {f0..<hi} :: uint set"
  have inj: "(word_of_int p :: uint) = word_of_int q \<longleftrightarrow> p = q"
    if "f0 \<le> p" "p < hi" "f0 \<le> q" "q < hi" for p q
    using word_of_int_inj_range [OF that(1,2,3,4) "1.prems"(4)] by auto
  have fiW: "word_of_int fi \<in> ?W"
    by (rule imageI) (use "1.prems"(1,2,3) in simp)
  have laW: "word_of_int (la - 1) \<in> ?W"
    by (rule imageI) (use "1.prems"(1,2,3) in simp)
  show ?case
  proof (cases "sp < at3 (centroid (bounds s (tlasIdx s (word_of_int fi)))) axis")
    case True
    note gt = this
    then have kfi: "sp < key s axis (word_of_int fi)" by (simp add: key_def)
    let ?s' = "swap s (word_of_int fi) (word_of_int (la - 1))"
    have left': "\<forall>p. f0 \<le> p \<and> p < fi \<longrightarrow> key ?s' axis (word_of_int p) \<le> sp"
    proof (intro allI impI)
      fix p assume p: "f0 \<le> p \<and> p < fi"
      then have "(word_of_int p :: uint) \<noteq> word_of_int fi" "(word_of_int p :: uint) \<noteq> word_of_int (la - 1)"
        using inj [of p fi] inj [of p "la - 1"] "1.prems"(1,2,3) by auto
      then have "key ?s' axis (word_of_int p) = key s axis (word_of_int p)"
        by (simp add: key_swap)
      with p "1.prems"(5) show "key ?s' axis (word_of_int p) \<le> sp" by simp
    qed
    have right': "\<forall>p. la - 1 \<le> p \<and> p < hi \<longrightarrow> sp < key ?s' axis (word_of_int p)"
    proof (intro allI impI)
      fix p assume p: "la - 1 \<le> p \<and> p < hi"
      show "sp < key ?s' axis (word_of_int p)"
      proof (cases "p = la - 1")
        case True
        then show ?thesis using kfi by (simp add: key_swap)
      next
        case False
        with p have pl: "la \<le> p" by simp
        then have "(word_of_int p :: uint) \<noteq> word_of_int fi" "(word_of_int p :: uint) \<noteq> word_of_int (la - 1)"
          using inj [of p fi] inj [of p "la - 1"] "1.prems"(1,2,3) p by auto
        then have "key ?s' axis (word_of_int p) = key s axis (word_of_int p)"
          by (simp add: key_swap)
        with p pl "1.prems"(6) show ?thesis by simp
      qed
    qed
    show ?thesis
    proof (cases "la - 1 \<le> fi")
      case True
      with "1.prems"(2) have eq: "la - 1 = fi" by simp
      have r: "partition_loop s sp axis fi la = (?s', la - 1)"
        using gt True by (subst partition_loop.simps) (simp add: Let_def)
      show ?thesis
        unfolding r fst_conv snd_conv
        using left' right' eq perm_on_swap_state [OF fiW laW, of s] by auto
    next
      case False
      then have lt: "fi < la - 1" by simp
      have r: "partition_loop s sp axis fi la = partition_loop ?s' sp axis fi (la - 1)"
        using gt False by (subst partition_loop.simps) (simp add: Let_def)
      have "la - 1 \<le> hi" using "1.prems"(3) by simp
      from "1.IH"(1) [OF refl gt refl False "1.prems"(1) lt this "1.prems"(4) left' right']
      show ?thesis
        unfolding r using perm_on_after_swap [OF fiW laW] by auto
    qed
  next
    case False
    note le = this
    then have kfi: "key s axis (word_of_int fi) \<le> sp" by (simp add: key_def)
    have left': "\<forall>p. f0 \<le> p \<and> p < fi + 1 \<longrightarrow> key s axis (word_of_int p) \<le> sp"
    proof (intro allI impI)
      fix p assume p: "f0 \<le> p \<and> p < fi + 1"
      show "key s axis (word_of_int p) \<le> sp"
      proof (cases "p = fi")
        case True
        with kfi show ?thesis by simp
      next
        case False
        with p "1.prems"(5) show ?thesis by simp
      qed
    qed
    show ?thesis
    proof (cases "la \<le> fi + 1")
      case True
      with "1.prems"(2) have eq: "la = fi + 1" by simp
      have r: "partition_loop s sp axis fi la = (s, la)"
        using le True by (subst partition_loop.simps) (simp add: Let_def)
      show ?thesis
        unfolding r fst_conv snd_conv
        using left' "1.prems"(6) eq by (auto intro: perm_refl)
    next
      case False
      then have lt: "fi + 1 < la" by simp
      have r: "partition_loop s sp axis fi la = partition_loop s sp axis (fi + 1) la"
        using le False by (subst partition_loop.simps) (simp add: Let_def)
      have "f0 \<le> fi + 1" using "1.prems"(1) by simp
      from "1.IH"(2) [OF refl le False this lt "1.prems"(3,4) left' "1.prems"(6)]
      show ?thesis
        unfolding r by auto
    qed
  qed
qed

lemma partition_big:
  fixes s :: KDTree and idx axis :: uint and sp :: float
  assumes "\<not> sint (count (node s idx)) < 3"
  defines "r \<equiv> partition_loop s sp axis (sint (first (node s idx)))
                 (sint (first (node s idx)) + sint (count (node s idx)))"
  shows "left (node (partition s idx sp axis) (nodePtr s)) = first (node s idx)"
    and "right (node (partition s idx sp axis) (nodePtr s)) = word_of_int (snd r) - first (node s idx)"
    and "left (node (partition s idx sp axis) (nodePtr s + 1)) = word_of_int (snd r)"
    and "right (node (partition s idx sp axis) (nodePtr s + 1))
           = count (node s idx) - (word_of_int (snd r) - first (node s idx))"
    and "tlasIdx (partition s idx sp axis) = tlasIdx (fst r)"
    and "bounds (partition s idx sp axis) = bounds s"
proof -
  have f: "only_tlasIdx s (fst r)" unfolding r_def by (rule partition_loop_frame)
  then have n: "node (fst r) = node s" and np: "nodePtr (fst r) = nodePtr s" and b: "bounds (fst r) = bounds s"
    by (simp_all add: only_tlasIdx_def)
  have ne: "nodePtr s + 1 \<noteq> nodePtr s" by simp
  have p: "partition s idx sp axis =
     (let s1 = fst r; la = snd r; l = nodePtr s1; r = nodePtr s1 + 1; px = push_bit 3 idx + 7;
          s2 = upd_node s1 l (\<lambda>n. n\<lparr>left := first (node s1 idx)\<rparr>);
          s3 = upd_node s2 r (\<lambda>n. n\<lparr>left := word_of_int la\<rparr>);
          s4 = upd_node s3 l (\<lambda>n. n\<lparr>right := first (node s3 r) - first n\<rparr>);
          s5 = upd_node s4 r (\<lambda>n. n\<lparr>parax := px\<rparr>);
          s6 = upd_node s5 l (\<lambda>n. n\<lparr>parax := px\<rparr>)
      in upd_node s6 r (\<lambda>n. n\<lparr>right := word_of_int (sint (count (node s idx))) - count (node s6 l)\<rparr>))"
    using assms(1) unfolding partition_def r_def by (simp add: Let_def case_prod_beta)
  show "left (node (partition s idx sp axis) (nodePtr s)) = first (node s idx)"
    unfolding p Let_def using ne by (simp add: n np)
  show "right (node (partition s idx sp axis) (nodePtr s)) = word_of_int (snd r) - first (node s idx)"
    unfolding p Let_def using ne by (simp add: n np)
  show "left (node (partition s idx sp axis) (nodePtr s + 1)) = word_of_int (snd r)"
    unfolding p Let_def using ne by (simp add: n np)
  show "right (node (partition s idx sp axis) (nodePtr s + 1))
           = count (node s idx) - (word_of_int (snd r) - first (node s idx))"
    unfolding p Let_def using ne by (simp add: n np)
  show "tlasIdx (partition s idx sp axis) = tlasIdx (fst r)"
    unfolding p Let_def by simp
  show "bounds (partition s idx sp axis) = bounds s"
    unfolding p Let_def by (simp add: b)
qed

lemma unat_word_of_int: "0 \<le> k \<Longrightarrow> k < 2 ^ 32 \<Longrightarrow> unat (word_of_int k :: uint) = nat k"
  by (simp add: unat_eq_nat_uint uint_word_of_int take_bit_eq_mod)

lemma sint_less: "sint (w::uint) < 2 ^ 31"
  using sint_lt [of w] by simp

lemma sint_nonneg_unat:
  assumes "0 \<le> sint (w::uint)"
  shows "unat w = nat (sint w)"
proof -
  have "unat (word_of_int (sint w) :: uint) = nat (sint w)"
    using assms sint_less [of w] by (intro unat_word_of_int) auto
  then show ?thesis by simp
qed

lemma word_plus_of_nat: "(w :: uint) + of_nat k = word_of_int (sint w + int k)"
  by simp


lemma partition_three:
  fixes s :: KDTree and idx axis :: uint and sp :: float
  assumes big: "3 \<le> sint (count (node s idx))"
  defines "s' \<equiv> partition s idx sp axis"
  shows "leftSide s' (node s' (nodePtr s)) axis sp
     \<and> rightSide s' (node s' (nodePtr s + 1)) axis sp
     \<and> first (node s' (nodePtr s)) = first (node s idx)
     \<and> first (node s' (nodePtr s + 1)) = first (node s idx) + count (node s' (nodePtr s))
     \<and> count (node s' (nodePtr s)) + count (node s' (nodePtr s + 1)) = count (node s idx)
     \<and> perm_on {first (node s idx) + of_nat k |k. k < unat (count (node s idx))}
          (tlasIdx s) (tlasIdx s')
     \<and> bounds s' = bounds s
     \<and> unat (count (node s' (nodePtr s))) + unat (count (node s' (nodePtr s + 1)))
         = unat (count (node s idx))"
proof -
  define N where "N = sint (count (node s idx))"
  define fi where "fi = sint (first (node s idx))"
  define r where "r = partition_loop s sp axis fi (fi + N)"
  define la where "la = snd r"
  have N3: "3 \<le> N" and N31: "N < 2 ^ 31"
    using big sint_less [of "count (node s idx)"] by (simp_all add: N_def)
  have nb: "\<not> sint (count (node s idx)) < 3" using big by simp
  note pb = partition_big [OF nb, of sp axis, folded fi_def N_def, folded r_def, folded s'_def la_def]
  have loop: "fi \<le> la \<and> la \<le> fi + N
    \<and> (\<forall>p. fi \<le> p \<and> p < la \<longrightarrow> key (fst r) axis (word_of_int p) \<le> sp)
    \<and> (\<forall>p. la \<le> p \<and> p < fi + N \<longrightarrow> sp < key (fst r) axis (word_of_int p))
    \<and> perm_on (word_of_int ` {fi..<fi + N}) (tlasIdx s) (tlasIdx (fst r))"
    unfolding la_def r_def
    using N3 N31 by (intro partition_loop_sides) auto
  have fr: "only_tlasIdx s (fst r)" unfolding r_def by (rule partition_loop_frame)
  have k: "key s' axis w = key (fst r) axis w" for w
    using pb(5,6) fr by (simp add: key_def only_tlasIdx_def)
  have wfi: "word_of_int fi = first (node s idx)" by (simp add: fi_def)
  have wN: "word_of_int N = count (node s idx)" by (simp add: N_def)
  have cl: "count (node s' (nodePtr s)) = word_of_int (la - fi)"
    using pb(2) wfi by simp
  have cr: "count (node s' (nodePtr s + 1)) = word_of_int (fi + N - la)"
    using pb(4) wfi wN by simp
  have ucl: "unat (count (node s' (nodePtr s))) = nat (la - fi)"
    unfolding cl using loop N31 by (intro unat_word_of_int) auto
  have ucr: "unat (count (node s' (nodePtr s + 1))) = nat (fi + N - la)"
    unfolding cr using loop N31 by (intro unat_word_of_int) auto
  have un: "unat (count (node s idx)) = nat N"
    unfolding N_def using big by (intro sint_nonneg_unat) simp
  have L: "leftSide s' (node s' (nodePtr s)) axis sp"
    unfolding leftSide_def list_all_iff
  proof (rule ballI)
    fix j assume "j \<in> set [0..<unat (count (node s' (nodePtr s)))]"
    then have j: "fi \<le> fi + int j \<and> fi + int j < la" using ucl by auto
    have e: "first (node s' (nodePtr s)) + of_nat j = word_of_int (fi + int j)"
      using pb(1) by (simp add: fi_def)
    from j loop have "key (fst r) axis (word_of_int (fi + int j)) \<le> sp" by blast
    then show "key s' axis (first (node s' (nodePtr s)) + of_nat j) \<le> sp"
      by (simp only: k e)
  qed
  have R: "rightSide s' (node s' (nodePtr s + 1)) axis sp"
    unfolding rightSide_def list_all_iff
  proof (rule ballI)
    fix j assume "j \<in> set [0..<unat (count (node s' (nodePtr s + 1)))]"
    then have j: "la \<le> la + int j \<and> la + int j < fi + N" using ucr by auto
    have e: "first (node s' (nodePtr s + 1)) + of_nat j = word_of_int (la + int j)"
      using pb(3) by simp
    from j loop have "sp < key (fst r) axis (word_of_int (la + int j))" by blast
    then show "sp < key s' axis (first (node s' (nodePtr s + 1)) + of_nat j)"
      by (simp only: k e)
  qed
  have W: "{first (node s idx) + of_nat j |j. j < unat (count (node s idx))}
             = word_of_int ` {fi..<fi + N}"
  proof (rule set_eqI)
    fix w :: uint
    show "w \<in> {first (node s idx) + of_nat j |j. j < unat (count (node s idx))}
           \<longleftrightarrow> w \<in> word_of_int ` {fi..<fi + N}"
    proof
      assume "w \<in> {first (node s idx) + of_nat j |j. j < unat (count (node s idx))}"
      then obtain j where j: "j < nat N" "w = first (node s idx) + of_nat j"
        using un by auto
      then have "w = word_of_int (fi + int j)" by (simp add: fi_def)
      moreover have "fi + int j \<in> {fi..<fi + N}" using j(1) by auto
      ultimately show "w \<in> word_of_int ` {fi..<fi + N}" by blast
    next
      assume "w \<in> word_of_int ` {fi..<fi + N}"
      then obtain p where p: "fi \<le> p" "p < fi + N" "w = word_of_int p" by auto
      then have "w = first (node s idx) + of_nat (nat (p - fi))"
        by (simp add: fi_def)
      moreover have "nat (p - fi) < unat (count (node s idx))"
        using p(1,2) un by auto
      ultimately show "w \<in> {first (node s idx) + of_nat j |j. j < unat (count (node s idx))}"
        by blast
    qed
  qed
  have P: "perm_on {first (node s idx) + of_nat k |k. k < unat (count (node s idx))}
          (tlasIdx s) (tlasIdx s')"
    unfolding W pb(5) using loop by blast
  have F: "first (node s' (nodePtr s + 1)) = first (node s idx) + count (node s' (nodePtr s))"
    using pb(3) cl wfi by simp
  have C: "count (node s' (nodePtr s)) + count (node s' (nodePtr s + 1)) = count (node s idx)"
    using cl cr wN by simp
  have U: "unat (count (node s' (nodePtr s))) + unat (count (node s' (nodePtr s + 1)))
         = unat (count (node s idx))"
    unfolding ucl ucr un using loop by arith
  from L R pb(1) F C P pb(6) U show ?thesis by blast
qed




section \<open>The two children made by \<^verbatim>\<open>partition\<close>\<close>

lemma partition_unfold:
  fixes s :: KDTree and idx axis :: uint and sp :: float
  defines "N \<equiv> sint (count (node s idx))"
  defines "fi \<equiv> sint (first (node s idx))"
  defines "r \<equiv> (if N < 3 then (s, fi + 1) else partition_loop s sp axis fi (fi + N))"
  shows "only_tlasIdx s (fst r)"
    and "partition s idx sp axis =
     (let s1 = fst r; la = snd r; l = nodePtr s; r = nodePtr s + 1; px = push_bit 3 idx + 7;
          s2 = upd_node s1 l (\<lambda>n. n\<lparr>left := first (node s idx)\<rparr>);
          s3 = upd_node s2 r (\<lambda>n. n\<lparr>left := word_of_int la\<rparr>);
          s4 = upd_node s3 l (\<lambda>n. n\<lparr>right := first (node s3 r) - first n\<rparr>);
          s5 = upd_node s4 r (\<lambda>n. n\<lparr>parax := px\<rparr>);
          s6 = upd_node s5 l (\<lambda>n. n\<lparr>parax := px\<rparr>)
      in upd_node s6 r (\<lambda>n. n\<lparr>right := count (node s idx) - count (node s6 l)\<rparr>))"
proof -
  show f: "only_tlasIdx s (fst r)"
    unfolding r_def using partition_loop_frame [of s sp axis fi "fi + N"]
    by (simp add: only_tlasIdx_def)
  then have n: "node (fst r) = node s" and np: "nodePtr (fst r) = nodePtr s"
    by (simp_all add: only_tlasIdx_def)
  have wN: "word_of_int N = count (node s idx)" by (simp add: N_def)
  show "partition s idx sp axis =
     (let s1 = fst r; la = snd r; l = nodePtr s; r = nodePtr s + 1; px = push_bit 3 idx + 7;
          s2 = upd_node s1 l (\<lambda>n. n\<lparr>left := first (node s idx)\<rparr>);
          s3 = upd_node s2 r (\<lambda>n. n\<lparr>left := word_of_int la\<rparr>);
          s4 = upd_node s3 l (\<lambda>n. n\<lparr>right := first (node s3 r) - first n\<rparr>);
          s5 = upd_node s4 r (\<lambda>n. n\<lparr>parax := px\<rparr>);
          s6 = upd_node s5 l (\<lambda>n. n\<lparr>parax := px\<rparr>)
      in upd_node s6 r (\<lambda>n. n\<lparr>right := count (node s idx) - count (node s6 l)\<rparr>))"
    unfolding partition_def r_def N_def [symmetric] fi_def [symmetric]
    by (simp add: Let_def case_prod_beta n [unfolded r_def] np [unfolded r_def] wN)
qed

lemma sint_of_small: "unat (w::uint) < 2 ^ 31 \<Longrightarrow> sint w = int (unat w)"
proof -
  assume a: "unat w < 2 ^ 31"
  have e: "uint w = int (unat w)" by (rule uint_nat)
  from a have "w < 2 ^ 31" by (simp add: word_less_nat_alt)
  then have "uint w < 2 ^ 31" by (simp add: word_less_def)
  moreover have "- (2 ^ 31) \<le> uint w" by (rule order_trans [of _ 0]) simp_all
  ultimately have "signed_take_bit 31 (uint w) = uint w"
    by (intro signed_take_bit_int_eq_self)
  then have "sint w = uint w" by (simp add: sint_uint)
  then show ?thesis by (simp only: e)
qed

lemma unat_plus_small: "unat (a::uint) + unat b < 2 ^ 32 \<Longrightarrow> unat (a + b) = unat a + unat b"
  using unat_add_lem [of a b] by simp

lemma perm_on_mono: "perm_on W f g \<Longrightarrow> W \<subseteq> W' \<Longrightarrow> perm_on W' f g"
  by (induction rule: perm_on.induct) (auto intro: perm_on.intros)

lemma partition_node_other:
  "j \<noteq> nodePtr s \<Longrightarrow> j \<noteq> nodePtr s + 1 \<Longrightarrow> node (partition s idx sp axis) j = node s j"
  using partition_unfold(1) [of s idx sp axis]
  by (subst partition_unfold(2)) (simp add: Let_def only_tlasIdx_def)

lemma partition_rest:
  "nodePtr (partition s idx sp axis) = nodePtr s" "bounds (partition s idx sp axis) = bounds s"
  "leaf (partition s idx sp axis) = leaf s" "tlas (partition s idx sp axis) = tlas s"
  "tlasCount (partition s idx sp axis) = tlasCount s" "blasCount (partition s idx sp axis) = blasCount s"
  "freed (partition s idx sp axis) = freed s"
  using partition_unfold(1) [of s idx sp axis]
  by (subst partition_unfold(2), simp add: Let_def only_tlasIdx_def)+

lemma partition_children_parax:
  "parax (node (partition s idx sp axis) (nodePtr s)) = push_bit 3 idx + 7"
  "parax (node (partition s idx sp axis) (nodePtr s + 1)) = push_bit 3 idx + 7"
  by (simp_all add: partition_parax)

lemma partition_children:
  fixes s :: KDTree and idx axis :: uint and sp :: float
  assumes c2: "2 \<le> unat (count (node s idx))"
    and H: "unat (first (node s idx)) + unat (count (node s idx)) < 2 ^ 31"
  defines "s' \<equiv> partition s idx sp axis"
  shows "first (node s' (nodePtr s)) = first (node s idx)"
    and "unat (first (node s' (nodePtr s + 1)))
           = unat (first (node s idx)) + unat (count (node s' (nodePtr s)))"
    and "unat (count (node s' (nodePtr s))) + unat (count (node s' (nodePtr s + 1)))
           = unat (count (node s idx))"
    and "perm_on {of_nat k |k. unat (first (node s idx)) \<le> k
                     \<and> k < unat (first (node s idx)) + unat (count (node s idx))}
           (tlasIdx s) (tlasIdx s')"
proof -
  let ?f = "first (node s idx)" and ?c = "count (node s idx)"
  let ?W = "{of_nat k |k. unat ?f \<le> k \<and> k < unat ?f + unat ?c} :: uint set"
  have sc: "sint ?c = int (unat ?c)" using H by (intro sint_of_small) simp
  have "first (node s' (nodePtr s)) = ?f
    \<and> first (node s' (nodePtr s + 1)) = ?f + count (node s' (nodePtr s))
    \<and> unat (count (node s' (nodePtr s))) + unat (count (node s' (nodePtr s + 1))) = unat ?c
    \<and> perm_on {?f + of_nat k |k. k < unat ?c} (tlasIdx s) (tlasIdx s')"
  proof (cases "sint ?c < 3")
    case True
    with c2 sc have u2: "unat ?c = 2" by linarith
    then have c: "?c = 2" by (simp add: word_unat_eq_iff)
    have ne: "nodePtr s + 1 \<noteq> nodePtr s" by simp
    have p: "partition s idx sp axis =
     (let s1 = s; la = sint ?f + 1; l = nodePtr s; r = nodePtr s + 1; px = push_bit 3 idx + 7;
          s2 = upd_node s1 l (\<lambda>n. n\<lparr>left := first (node s idx)\<rparr>);
          s3 = upd_node s2 r (\<lambda>n. n\<lparr>left := word_of_int la\<rparr>);
          s4 = upd_node s3 l (\<lambda>n. n\<lparr>right := first (node s3 r) - first n\<rparr>);
          s5 = upd_node s4 r (\<lambda>n. n\<lparr>parax := px\<rparr>);
          s6 = upd_node s5 l (\<lambda>n. n\<lparr>parax := px\<rparr>)
      in upd_node s6 r (\<lambda>n. n\<lparr>right := count (node s idx) - count (node s6 l)\<rparr>))"
      using True by (subst partition_unfold(2)) simp
    have 1: "first (node s' (nodePtr s)) = ?f"
      unfolding s'_def p Let_def using ne by simp
    have 2: "first (node s' (nodePtr s + 1)) = ?f + 1"
      unfolding s'_def p Let_def using ne by simp
    have 3: "count (node s' (nodePtr s)) = 1"
      unfolding s'_def p Let_def using ne by simp
    have 4: "count (node s' (nodePtr s + 1)) = 1"
      unfolding s'_def p Let_def using ne c by simp
    have 5: "tlasIdx s' = tlasIdx s"
      unfolding s'_def p Let_def by simp
    show ?thesis using 1 2 3 4 5 u2 by (simp add: perm_refl)
  next
    case False
    then have "3 \<le> sint ?c" by simp
    from partition_three [OF this, of sp axis, folded s'_def] show ?thesis by blast
  qed
  then have a: "first (node s' (nodePtr s)) = ?f"
    and b: "first (node s' (nodePtr s + 1)) = ?f + count (node s' (nodePtr s))"
    and c: "unat (count (node s' (nodePtr s))) + unat (count (node s' (nodePtr s + 1))) = unat ?c"
    and d: "perm_on {?f + of_nat k |k. k < unat ?c} (tlasIdx s) (tlasIdx s')"
    by blast+
  show "first (node s' (nodePtr s)) = first (node s idx)" by (rule a)
  show "unat (first (node s' (nodePtr s + 1)))
           = unat (first (node s idx)) + unat (count (node s' (nodePtr s)))"
    unfolding b using c H by (intro unat_plus_small) simp
  show "unat (count (node s' (nodePtr s))) + unat (count (node s' (nodePtr s + 1)))
           = unat (count (node s idx))" by (rule c)
  have "{?f + of_nat k |k. k < unat ?c} \<subseteq> ?W"
  proof
    fix w assume "w \<in> {?f + of_nat k |k. k < unat ?c}"
    then obtain k where k: "k < unat ?c" "w = ?f + of_nat k" by blast
    then have "w = of_nat (unat ?f + k)" by simp
    moreover have "unat ?f \<le> unat ?f + k \<and> unat ?f + k < unat ?f + unat ?c" using k(1) by simp
    ultimately show "w \<in> ?W" by blast
  qed
  with d show "perm_on ?W (tlasIdx s) (tlasIdx s')" by (rule perm_on_mono)
qed

section \<open>The steps of \<^verbatim>\<open>subdivide\<close>\<close>

lemma split_try_nodePtr: "nodePtr (split_try s idx) = nodePtr s"
  by (simp add: split_try_def partition_rest subdivide_bounds_rest)

lemma subdivide_bounds_count: "count (node (subdivide_bounds s idx) j) = count (node s j)"
  "first (node (subdivide_bounds s idx) j) = first (node s j)"
  by (simp_all add: subdivide_bounds_fields)

lemma subdivide_Suc:
  "subdivide (Suc fuel) s idx =
     (if count (node s idx) < 2 then Some (subdivide_bounds s idx)
      else if count (node (split_try s idx) (nodePtr s)) = 0
              \<or> count (node (split_try s idx) (nodePtr s + 1)) = 0
      then Some (split_try s idx)
      else (case subdivide fuel (split_commit s idx) (nodePtr s) of
              None \<Rightarrow> None
            | Some s4 \<Rightarrow> subdivide fuel s4 (nodePtr s + 1)))"
  by (simp add: Let_def split_commit_def split_try_def split_center_def split_axis_def
      subdivide_bounds_count partition_rest subdivide_bounds_rest)

lemma unat_plus_one: "unat (w::uint) + 1 < 2 ^ 32 \<Longrightarrow> unat (w + 1) = unat w + 1"
  using unat_plus_small [of w 1] by simp

lemma unat_plus_two: "unat (w::uint) + 2 < 2 ^ 32 \<Longrightarrow> unat (w + 2) = unat w + 2"
  using unat_plus_small [of w 2] by simp

lemma unat_neq: "unat (a::uint) \<noteq> unat b \<Longrightarrow> a \<noteq> b"
  by auto

lemma subdivide_bounds_node_other: "j \<noteq> idx \<Longrightarrow> node (subdivide_bounds s idx) j = node s j"
  by (simp add: subdivide_bounds_def)

lemma split_try_rest:
  "nodePtr (split_try s idx) = nodePtr s" "bounds (split_try s idx) = bounds s"
  "leaf (split_try s idx) = leaf s" "tlas (split_try s idx) = tlas s"
  "tlasCount (split_try s idx) = tlasCount s" "blasCount (split_try s idx) = blasCount s"
  "freed (split_try s idx) = freed s"
  by (simp_all add: split_try_def partition_rest subdivide_bounds_rest)

lemma split_try_node_other:
  "j \<noteq> idx \<Longrightarrow> j \<noteq> nodePtr s \<Longrightarrow> j \<noteq> nodePtr s + 1 \<Longrightarrow> node (split_try s idx) j = node s j"
  by (simp add: split_try_def partition_node_other subdivide_bounds_rest subdivide_bounds_node_other)

lemma split_try_idx:
  "idx \<noteq> nodePtr s \<Longrightarrow> idx \<noteq> nodePtr s + 1
   \<Longrightarrow> node (split_try s idx) idx = node (subdivide_bounds s idx) idx"
  by (simp add: split_try_def partition_node_other subdivide_bounds_rest)

lemma split_try_children:
  assumes "2 \<le> unat (count (node s idx))"
    and "unat (first (node s idx)) + unat (count (node s idx)) < 2 ^ 31"
  shows "first (node (split_try s idx) (nodePtr s)) = first (node s idx)"
    and "unat (first (node (split_try s idx) (nodePtr s + 1)))
           = unat (first (node s idx)) + unat (count (node (split_try s idx) (nodePtr s)))"
    and "unat (count (node (split_try s idx) (nodePtr s)))
           + unat (count (node (split_try s idx) (nodePtr s + 1))) = unat (count (node s idx))"
    and "perm_on {of_nat k |k. unat (first (node s idx)) \<le> k
                     \<and> k < unat (first (node s idx)) + unat (count (node s idx))}
           (tlasIdx s) (tlasIdx (split_try s idx))"
    and "parax (node (split_try s idx) (nodePtr s)) = push_bit 3 idx + 7"
    and "parax (node (split_try s idx) (nodePtr s + 1)) = push_bit 3 idx + 7"
proof -
  let ?s1 = "subdivide_bounds s idx"
  have a: "2 \<le> unat (count (node ?s1 idx))"
    and b: "unat (first (node ?s1 idx)) + unat (count (node ?s1 idx)) < 2 ^ 31"
    using assms by (simp_all add: subdivide_bounds_count)
  note pc = partition_children [OF a b, of "split_center s idx" "split_axis s idx"]
  from pc(1) show "first (node (split_try s idx) (nodePtr s)) = first (node s idx)"
    by (simp add: split_try_def subdivide_bounds_count subdivide_bounds_rest)
  from pc(2) show "unat (first (node (split_try s idx) (nodePtr s + 1)))
           = unat (first (node s idx)) + unat (count (node (split_try s idx) (nodePtr s)))"
    by (simp add: split_try_def subdivide_bounds_count subdivide_bounds_rest)
  from pc(3) show "unat (count (node (split_try s idx) (nodePtr s)))
           + unat (count (node (split_try s idx) (nodePtr s + 1))) = unat (count (node s idx))"
    by (simp add: split_try_def subdivide_bounds_count subdivide_bounds_rest)
  from pc(4) show "perm_on {of_nat k |k. unat (first (node s idx)) \<le> k
                     \<and> k < unat (first (node s idx)) + unat (count (node s idx))}
           (tlasIdx s) (tlasIdx (split_try s idx))"
    by (simp add: split_try_def subdivide_bounds_count subdivide_bounds_rest)
  show "parax (node (split_try s idx) (nodePtr s)) = push_bit 3 idx + 7"
    "parax (node (split_try s idx) (nodePtr s + 1)) = push_bit 3 idx + 7"
    by (simp_all add: split_try_def partition_parax subdivide_bounds_rest)
qed

lemma split_commit_rest:
  "nodePtr (split_commit s idx) = nodePtr s + 2" "bounds (split_commit s idx) = bounds s"
  "leaf (split_commit s idx) = leaf s" "tlas (split_commit s idx) = tlas s"
  "tlasCount (split_commit s idx) = tlasCount s" "blasCount (split_commit s idx) = blasCount s"
  "freed (split_commit s idx) = freed s" "tlasIdx (split_commit s idx) = tlasIdx (split_try s idx)"
  by (simp_all add: split_commit_def split_try_rest)

lemma split_commit_node_other:
  "j \<noteq> idx \<Longrightarrow> node (split_commit s idx) j = node (split_try s idx) j"
  by (simp add: split_commit_def)

lemma split_commit_idx:
  "node (split_commit s idx) idx = (node (split_try s idx) idx)\<lparr>left := nodePtr s,
      right := nodePtr s + 1,
      parax := (parax (node (split_try s idx) idx) AND 0xfffffff8) + split_axis s idx,
      splitPos := split_center s idx\<rparr>"
  by (simp add: split_commit_def)

section \<open>What \<^verbatim>\<open>subdivide\<close> leaves alone\<close>

lemma subdivide_frame:
  assumes "subdivide fuel s idx = Some s'"
    and "unat idx < unat (nodePtr s)"
    and "unat (nodePtr s) + 2 * unat (count (node s idx)) \<le> 2 ^ 29"
    and "unat (first (node s idx)) + unat (count (node s idx)) < 2 ^ 31"
  shows "unat (nodePtr s) \<le> unat (nodePtr s')
       \<and> unat (nodePtr s') \<le> unat (nodePtr s) + 2 * (unat (count (node s idx)) - 1)
       \<and> (\<forall>j. unat j < unat (nodePtr s) \<and> j \<noteq> idx \<longrightarrow> node s' j = node s j)
       \<and> bounds s' = bounds s \<and> leaf s' = leaf s \<and> tlas s' = tlas s
       \<and> tlasCount s' = tlasCount s \<and> blasCount s' = blasCount s \<and> freed s' = freed s
       \<and> (node s' idx = node (subdivide_bounds s idx) idx
          \<or> 2 \<le> unat (count (node s idx)) \<and> node s' idx = node (split_commit s idx) idx)"
  using assms
proof (induction fuel arbitrary: s idx s')
  case 0
  then show ?case by simp
next
  case (Suc fuel)
  let ?c = "count (node s idx)" and ?f = "first (node s idx)" and ?l = "nodePtr s"
  let ?t = "split_try s idx" and ?s3 = "split_commit s idx"
  note sub = Suc.prems(1) [unfolded subdivide_Suc]
  show ?case
  proof (cases "?c < 2")
    case True
    with sub have "s' = subdivide_bounds s idx" by simp
    then show ?thesis
      by (simp add: subdivide_bounds_rest subdivide_bounds_node_other)
  next
    case False
    then have c2: "2 \<le> unat ?c" by (simp add: word_less_nat_alt)
    have lb: "unat ?l + 2 < 2 ^ 32" using Suc.prems(3) c2 by simp
    have l1: "unat (?l + 1) = unat ?l + 1"
      by (rule unat_plus_one) (use lb in simp)
    have l2: "unat (?l + 2) = unat ?l + 2"
      by (rule unat_plus_two) (use lb in simp)
    have il: "idx \<noteq> ?l" "idx \<noteq> ?l + 1"
      using Suc.prems(2) l1 by (auto intro!: unat_neq)
    note ch = split_try_children [OF c2 Suc.prems(4)]
    show ?thesis
    proof (cases "count (node ?t ?l) = 0 \<or> count (node ?t (?l + 1)) = 0")
      case True
      with sub False have s': "s' = ?t" by simp
      have "\<forall>j. unat j < unat ?l \<and> j \<noteq> idx \<longrightarrow> node ?t j = node s j"
      proof (intro allI impI)
        fix j assume j: "unat j < unat ?l \<and> j \<noteq> idx"
        then have "j \<noteq> ?l" "j \<noteq> ?l + 1" using l1 by (auto intro!: unat_neq)
        with j show "node ?t j = node s j" by (simp add: split_try_node_other)
      qed
      then show ?thesis unfolding s' using il by (simp add: split_try_rest split_try_idx)
    next
      case False
      note ok = this
      then have cl0: "unat (count (node ?t ?l)) \<noteq> 0" and cr0: "unat (count (node ?t (?l + 1))) \<noteq> 0"
        by (simp_all add: unat_eq_0)
      from sub \<open>\<not> ?c < 2\<close> ok obtain s4 where
        left: "subdivide fuel ?s3 ?l = Some s4" and right: "subdivide fuel s4 (?l + 1) = Some s'"
        by (auto split: option.splits)
      have n3l: "node ?s3 ?l = node ?t ?l" and n3r: "node ?s3 (?l + 1) = node ?t (?l + 1)"
        using il by (simp_all add: split_commit_node_other)
      have np3: "unat (nodePtr ?s3) = unat ?l + 2"
        by (simp add: split_commit_rest l2)
      have pl: "unat ?l < unat (nodePtr ?s3)" using np3 by simp
      have bl: "unat (nodePtr ?s3) + 2 * unat (count (node ?s3 ?l)) \<le> 2 ^ 29"
        unfolding n3l np3 using ch(3) cr0 Suc.prems(3) by arith
      have hl: "unat (first (node ?s3 ?l)) + unat (count (node ?s3 ?l)) < 2 ^ 31"
        unfolding n3l ch(1) using ch(3) Suc.prems(4) by arith
      note L = Suc.IH [OF left pl bl hl]
      from L have L1: "unat ?l + 2 \<le> unat (nodePtr s4)"
        and L2: "unat (nodePtr s4) \<le> unat ?l + 2 + 2 * (unat (count (node ?t ?l)) - 1)"
        and L3: "\<forall>j. unat j < unat ?l + 2 \<and> j \<noteq> ?l \<longrightarrow> node s4 j = node ?s3 j"
        unfolding n3l np3 by blast+
      have "?l + 1 \<noteq> ?l" by simp
      moreover have "unat (?l + 1) < unat ?l + 2" using l1 by simp
      ultimately have n4r: "node s4 (?l + 1) = node ?s3 (?l + 1)"
        using L3 by blast
      have pr: "unat (?l + 1) < unat (nodePtr s4)" using L1 l1 by simp
      have br: "unat (nodePtr s4) + 2 * unat (count (node s4 (?l + 1))) \<le> 2 ^ 29"
        unfolding n4r n3r using L2 ch(3) cl0 cr0 Suc.prems(3) by arith
      have hr: "unat (first (node s4 (?l + 1))) + unat (count (node s4 (?l + 1))) < 2 ^ 31"
        unfolding n4r n3r ch(2) using ch(3) Suc.prems(4) by arith
      note R = Suc.IH [OF right pr br hr]
      from R have R1: "unat (nodePtr s4) \<le> unat (nodePtr s')"
        and R2: "unat (nodePtr s') \<le> unat (nodePtr s4) + 2 * (unat (count (node ?t (?l + 1))) - 1)"
        and R3: "\<forall>j. unat j < unat (nodePtr s4) \<and> j \<noteq> ?l + 1 \<longrightarrow> node s' j = node s4 j"
        unfolding n4r n3r by blast+
      have a: "unat ?l \<le> unat (nodePtr s')" using L1 R1 by simp
      have b: "unat (nodePtr s') \<le> unat ?l + 2 * (unat ?c - 1)"
        using L2 R2 ch(3) cl0 cr0 by arith
      have c: "\<forall>j. unat j < unat ?l \<and> j \<noteq> idx \<longrightarrow> node s' j = node s j"
      proof (intro allI impI)
        fix j assume j: "unat j < unat ?l \<and> j \<noteq> idx"
        then have ne: "j \<noteq> ?l" "j \<noteq> ?l + 1" using l1 by (auto intro!: unat_neq)
        have "unat j < unat (nodePtr s4)" using j L1 by simp
        with R3 ne have "node s' j = node s4 j" by blast
        also have "\<dots> = node ?s3 j" using L3 j ne by simp
        also have "\<dots> = node ?t j" using j by (simp add: split_commit_node_other)
        also have "\<dots> = node s j" using j ne by (simp add: split_try_node_other)
        finally show "node s' j = node s j" .
      qed
      have "unat idx < unat (nodePtr s4)" using Suc.prems(2) L1 by simp
      with R3 il have "node s' idx = node s4 idx" by blast
      also have "\<dots> = node ?s3 idx" using L3 Suc.prems(2) il by simp
      finally have d: "node s' idx = node ?s3 idx" .
      from a b c d c2 L R show ?thesis by (simp add: split_commit_rest)
    qed
  qed
qed

section \<open>The bounds of \<^verbatim>\<open>subdivide\<close> are the centroid range\<close>

lemma fold_min_Min: "fold (\<lambda>x m. min m x) xs (m0::real) = Min (insert m0 (set xs))"
proof (induction xs arbitrary: m0)
  case Nil
  show ?case by simp
next
  case (Cons x xs)
  have "Min (insert (min m0 x) (set xs)) = Min (insert m0 (insert x (set xs)))"
    by (cases "set xs = {}") (simp_all add: min.assoc)
  with Cons show ?case by simp
qed

lemma fold_max_Max: "fold (\<lambda>x m. max m x) xs (m0::real) = Max (insert m0 (set xs))"
proof (induction xs arbitrary: m0)
  case Nil
  show ?case by simp
next
  case (Cons x xs)
  have "Max (insert (max m0 x) (set xs)) = Max (insert m0 (insert x (set xs)))"
    by (cases "set xs = {}") (simp_all add: max.assoc)
  with Cons show ?case by simp
qed

lemma at3_fminf: "a \<in> {0, 1, 2} \<Longrightarrow> at3 (fminf p q) a = min (at3 p a) (at3 q a)"
  by (cases p; cases q) auto

lemma at3_fmaxf: "a \<in> {0, 1, 2} \<Longrightarrow> at3 (fmaxf p q) a = max (at3 p a) (at3 q a)"
  by (cases p; cases q) auto

lemma float3_eqI: "at3 p 0 = at3 q 0 \<Longrightarrow> at3 p 1 = at3 q 1 \<Longrightarrow> at3 p 2 = at3 q 2 \<Longrightarrow> p = q"
  by (cases p; cases q) simp

lemma fold_grow_bmin:
  assumes "a \<in> {0, 1, 2}"
  shows "at3 (bmin (fold (subdivide_grow s f) ks n)) a
    = fold (\<lambda>x m. min m x) (map (\<lambda>k. at3 (centroid (bounds s (tlasIdx s (f + of_nat k)))) a) ks)
        (at3 (bmin n) a)"
  by (induction ks arbitrary: n)
    (simp_all add: subdivide_grow_def Let_def at3_fminf [OF assms] centroid_def)

lemma fold_grow_bmax:
  assumes "a \<in> {0, 1, 2}"
  shows "at3 (bmax (fold (subdivide_grow s f) ks n)) a
    = fold (\<lambda>x m. max m x) (map (\<lambda>k. at3 (centroid (bounds s (tlasIdx s (f + of_nat k)))) a) ks)
        (at3 (bmax n) a)"
  by (induction ks arbitrary: n)
    (simp_all add: subdivide_grow_def Let_def at3_fmaxf [OF assms] centroid_def)

lemma fold_count_filter:
  "fold (\<lambda>i c. if P i then c + 1 else c) xs (c0::nat) = c0 + length (filter P xs)"
  by (induction xs arbitrary: c0) simp_all

lemma leftCount_filter:
  "leftCount s n axis center = length (filter (\<lambda>C. at3 C axis \<le> center) (instCentroids s n))"
  by (simp add: leftCount_def instCentroids_def fold_count_filter filter_map comp_def)

lemma at3_splat: "a \<in> {0, 1, 2} \<Longrightarrow> at3 (splat x) a = x"
  by (auto simp: splat_def)

lemma coords_instCentroids:
  "coords a (instCentroids s n)
    = map (\<lambda>k. at3 (centroid (bounds s (tlasIdx s (first n + of_nat k)))) a) [0..<unat (count n)]"
  by (simp add: coords_def instCentroids_def comp_def)

lemma subdivide_bounds_at3:
  assumes a: "a \<in> {0, 1, 2}" and ne: "0 < unat (count (node s idx))"
    and r: "inRange s (node s idx)"
  shows "at3 (bmin (node (subdivide_bounds s idx) idx)) a
           = Min (set (coords a (instCentroids s (node s idx))))"
    and "at3 (bmax (node (subdivide_bounds s idx) idx)) a
           = Max (set (coords a (instCentroids s (node s idx))))"
proof -
  let ?xs = "coords a (instCentroids s (node s idx))"
  have nonempty: "set ?xs \<noteq> {}"
    using ne by (simp add: coords_instCentroids)
  have bnd: "\<forall>x \<in> set ?xs. - huge \<le> x \<and> x \<le> huge"
    using r a by (auto simp: inRange_def list_all_iff coords_def)
  have "Min (set ?xs) \<in> set ?xs" "Max (set ?xs) \<in> set ?xs"
    using nonempty by (simp_all del: set_empty)
  with bnd have mn: "Min (set ?xs) \<le> huge" and mx: "- huge \<le> Max (set ?xs)"
    by blast+
  have "at3 (bmin (node (subdivide_bounds s idx) idx)) a = Min (insert huge (set ?xs))"
    by (simp add: subdivide_bounds_def fold_grow_bmin [OF a] at3_splat [OF a]
        fold_min_Min coords_instCentroids)
  also have "\<dots> = min huge (Min (set ?xs))"
    using nonempty by simp
  also have "\<dots> = Min (set ?xs)"
    using mn by (rule min_absorb2)
  finally show "at3 (bmin (node (subdivide_bounds s idx) idx)) a = Min (set ?xs)" .
  have "at3 (bmax (node (subdivide_bounds s idx) idx)) a = Max (insert (- huge) (set ?xs))"
    by (simp add: subdivide_bounds_def fold_grow_bmax [OF a] at3_splat [OF a]
        fold_max_Max coords_instCentroids)
  also have "\<dots> = max (- huge) (Max (set ?xs))"
    using nonempty by simp
  also have "\<dots> = Max (set ?xs)"
    using mx by (rule max_absorb2)
  finally show "at3 (bmax (node (subdivide_bounds s idx) idx)) a = Max (set ?xs)" .
qed

lemma subdivide_bounds_minmax:
  assumes ne: "0 < unat (count (node s idx))" and r: "inRange s (node s idx)"
  shows "bmin (node (subdivide_bounds s idx) idx) = centroidMin s (node s idx)"
    and "bmax (node (subdivide_bounds s idx) idx) = centroidMax s (node s idx)"
proof -
  show "bmin (node (subdivide_bounds s idx) idx) = centroidMin s (node s idx)"
    by (rule float3_eqI)
      (simp_all add: subdivide_bounds_at3(1) [OF _ ne r] centroidMin_def Let_def)
  show "bmax (node (subdivide_bounds s idx) idx) = centroidMax s (node s idx)"
    by (rule float3_eqI)
      (simp_all add: subdivide_bounds_at3(2) [OF _ ne r] centroidMax_def Let_def)
qed

lemma instCentroids_subdivide_bounds:
  "instCentroids (subdivide_bounds s idx) (node (subdivide_bounds s idx) idx)
     = instCentroids s (node s idx)"
  by (simp add: instCentroids_def subdivide_bounds_rest subdivide_bounds_count)

lemma split_spec:
  assumes ne: "0 < unat (count (node s idx))" and r: "inRange s (node s idx)"
  shows "split_axis s idx = specAxis s (node s idx)"
    and "split_center s idx = specSplitPos s (node s idx)"
proof -
  note mm = subdivide_bounds_minmax [OF ne r]
  show ax: "split_axis s idx = specAxis s (node s idx)"
    by (simp add: split_axis_def specAxis_def Let_def mm)
  show "split_center s idx = specSplitPos s (node s idx)"
    unfolding split_center_def subdivide_center_def specSplitPos_def Let_def ax mm
      leftCount_filter instCentroids_subdivide_bounds subdivide_bounds_count
    by (simp add: word_less_nat_alt not_less)
qed

section \<open>Parents and children after \<^verbatim>\<open>subdivide\<close>\<close>





































section \<open>The leaves after \<^verbatim>\<open>rebuild\<close>\<close>






























section \<open>The leaf test\<close>

text \<open>
  C5, as stated: \<^verbatim>\<open>isLeaf\<close> is true exactly when the low three bits of \<^verbatim>\<open>parax\<close>
  are 7.  The source tests \<^verbatim>\<open>(parax & 7) > 3\<close>, so a node whose low bits are 4 is a
  leaf for the code, and is none for the claim.
\<close>

theorem isLeaf_not_only_seven:
  "\<not> (\<forall>n. isLeaf n \<longleftrightarrow> parax n AND 7 = 7)"
proof
  assume a: "\<forall>n. isLeaf n \<longleftrightarrow> parax n AND 7 = 7"
  have "isLeaf (zeroNode\<lparr>parax := 4\<rparr>)" by (simp add: isLeaf_def)
  with a have "parax (zeroNode\<lparr>parax := 4\<rparr>) AND 7 = 7" by blast
  then show False by simp
qed

text \<open>
  C5, amended: for every value of \<^verbatim>\<open>parax\<close>, \<^verbatim>\<open>isLeaf\<close> is true exactly when the
  low three bits of \<^verbatim>\<open>parax\<close> are 4, 5, 6 or 7 (that is, greater than 3).
\<close>

theorem isLeaf_iff: "isLeaf n \<longleftrightarrow> parax n AND 7 \<in> {4, 5, 6, 7}"
  using low_cases [of "parax n"] by (auto simp: isLeaf_def)

section \<open>The constructor of a ray\<close>

text \<open>
  C8, as stated: a default-constructed ray has \<open>hit.t = +\<infinity>\<close>.  The constructor does
  not write \<^verbatim>\<open>hit\<close>: on storage that holds 0 in that field, \<^verbatim>\<open>hit.t\<close> is 0 after
  the construction.
\<close>

theorem Ray_ctor_hit_not_infinite:
  "t (hit (Ray_ctor \<lparr>O4 = mm_set1_ps 0, D4 = mm_set1_ps 0, rD4 = mm_set1_ps 0,
       hit = \<lparr>t = Finite 0, u = Finite 0, v = Finite 0, instPrim = 0\<rparr>\<rparr>)) \<noteq> PosInf"
  by (simp add: Ray_ctor_def)

text \<open>
  C8, amended: the constructor sets the four lanes of \<^verbatim>\<open>O4\<close>, \<^verbatim>\<open>D4\<close> and
  \<^verbatim>\<open>rD4\<close> to 1 and leaves \<^verbatim>\<open>hit\<close> as the storage held it; the sentinel
  \<open>t = +\<infinity>\<close> is there only when the caller stores it.
\<close>

theorem Ray_ctor_fields:
  "O4 (Ray_ctor r) = (Finite 1, Finite 1, Finite 1, Finite 1)
   \<and> D4 (Ray_ctor r) = (Finite 1, Finite 1, Finite 1, Finite 1)
   \<and> rD4 (Ray_ctor r) = (Finite 1, Finite 1, Finite 1, Finite 1)
   \<and> hit (Ray_ctor r) = hit r
   \<and> (t (hit (Ray_ctor r)) = PosInf \<longleftrightarrow> t (hit r) = PosInf)"
  by (simp add: Ray_ctor_def mm_set1_ps_def)

section \<open>The nearest-neighbour query leaves the tree alone\<close>

lemma FindNearest_walk_tree:
  "FindNearest_walk fuel s A n stackPtr stack best = Some (s', r) \<Longrightarrow> s' = s"
proof (induction fuel arbitrary: n stackPtr stack best)
  case 0
  then show ?case by simp
next
  case (Suc fuel)
  from Suc.prems show ?case
    by (auto simp: Let_def split: if_splits dest: Suc.IH)
qed

lemma rebuild_sceneA: "rebuild 3 (KDTree_ctor storage0 sceneA 3) = Some kdA"
proof -
  have "rebuild 3 (KDTree_ctor storage0 sceneA 3) \<noteq> None"
    by code_simp
  then show ?thesis by (auto simp: kdA_def)
qed

lemma FindNearest_sceneA_values:
  "map_option snd (FindNearest 10 kdA 1 0 PosInf) = Some (3, Finite 16, 3)"
  unfolding kdA_def by code_simp

lemma FindNearest_sceneA: "FindNearest 10 kdA 1 0 PosInf = Some (kdA, 3, Finite 16, 3)"
proof -
  from FindNearest_sceneA_values obtain s' where
    s': "FindNearest 10 kdA 1 0 PosInf = Some (s', 3, Finite 16, 3)"
    by (cases "FindNearest 10 kdA 1 0 PosInf") auto
  then have "FindNearest_walk 10 kdA 1 0 0 (\<lambda>_. 0) (0, PosInf) = Some (s', 3, Finite 16)"
    by (auto simp: FindNearest_def split: option.splits)
  then have "s' = kdA" by (rule FindNearest_walk_tree)
  with s' show ?thesis by simp
qed



section \<open>The nearest-neighbour query on scene A\<close>

text \<open>
  C1, at scene A: the tree is the one \<^verbatim>\<open>rebuild\<close> makes, the query is for instance 1
  and starts from \<open>+\<infinity>\<close>.  The union of the boxes 1 and 2 has area 300, that of 1 and 3
  has area 385, so instance 2 is the nearest; the code returns instance 3 and the value
  16, which is the area of neither union.
\<close>

theorem FindNearest_sceneA_not_nearest:
  "rebuild 3 (KDTree_ctor storage0 sceneA 3) = Some kdA
   \<and> FindNearest 10 kdA 1 0 PosInf = Some (kdA, 3, Finite 16, 3)
   \<and> unionArea (bounds kdA 1) (bounds kdA 2) = 300
   \<and> unionArea (bounds kdA 1) (bounds kdA 3) = 385"
proof -
  have "unionArea (bounds kdA 1) (bounds kdA 2) = 300"
    unfolding kdA_def by code_simp
  moreover have "unionArea (bounds kdA 1) (bounds kdA 3) = 385"
    unfolding kdA_def by code_simp
  ultimately show ?thesis
    using rebuild_sceneA FindNearest_sceneA by simp
qed

section \<open>Leaf marks and axes\<close>

lemma reachable_kdA: "reachable kdA"
  using rebuild_sceneA by (rule reach_rebuild)

text \<open>
  C9: in every state reached by \<^verbatim>\<open>rebuild\<close> followed by any calls of \<^verbatim>\<open>add\<close>
  and \<^verbatim>\<open>removeLeaf\<close>, the low three bits of the \<^verbatim>\<open>parax\<close> of every node (live
  or not) are 7 or an axis 0, 1 or 2, and the leaf test of the code agrees with
  \<^verbatim>\<open>(parax & 7) == 7\<close>.
\<close>

theorem reachable_low_bits:
  assumes "reachable s"
  shows "parax (node s i) AND 7 \<in> {0, 1, 2, 7}
    \<and> (isLeaf (node s i) \<longleftrightarrow> parax (node s i) AND 7 = 7)"
proof -
  from assms have "paraxOK s" by (rule reachable_paraxOK)
  then have "parax (node s i) AND 7 \<in> {0, 1, 2, 7}"
    by (simp add: paraxOK_def lowOK_def)
  then show ?thesis by (auto simp: isLeaf_def)
qed


theorem reachable_low_bits_witness:
  "reachable (removeLeaf kdA 1) \<and> parax (node (removeLeaf kdA 1) 1) AND 7 \<in> {0, 1, 2, 7}
   \<and> (isLeaf (node (removeLeaf kdA 1) 1) \<longleftrightarrow> parax (node (removeLeaf kdA 1) 1) AND 7 = 7)"
  using reachable_low_bits [of "removeLeaf kdA 1" 1] reach_removeLeaf [OF reachable_kdA, of 1]
  by blast

section \<open>The two sides of a split\<close>

lemma rebuild_sceneB: "rebuild 2 (KDTree_ctor storage0 sceneB 2) = Some kdB"
proof -
  have "rebuild 2 (KDTree_ctor storage0 sceneB 2) \<noteq> None"
    by code_simp
  then show ?thesis by (auto simp: kdB_def)
qed

text \<open>
  C3, as stated, includes nodes with two instances.  For these \<^verbatim>\<open>partition\<close> compares
  nothing: the left child gets \<^verbatim>\<open>tlasIdx[first]\<close>.  In scene B the root has two
  instances and is split on axis 0 at 5.5; its left child holds instance 1, whose centroid
  is at 10.5.
\<close>

theorem subdivide_two_instances_unsorted:
  "rebuild 2 (KDTree_ctor storage0 sceneB 2) = Some kdB
   \<and> \<not> isLeaf (node kdB 0) \<and> left (node kdB 0) = 1 \<and> splitPos (node kdB 0) = 11 / 2
   \<and> key kdB (parax (node kdB 0) AND 7) (first (node kdB 1)) = 21 / 2
   \<and> \<not> leftSide kdB (node kdB (left (node kdB 0))) (parax (node kdB 0) AND 7)
         (splitPos (node kdB 0))"
proof -
  have "\<not> isLeaf (node kdB 0) \<and> left (node kdB 0) = 1 \<and> splitPos (node kdB 0) = 11 / 2
   \<and> key kdB (parax (node kdB 0) AND 7) (first (node kdB 1)) = 21 / 2
   \<and> \<not> leftSide kdB (node kdB (left (node kdB 0))) (parax (node kdB 0) AND 7)
         (splitPos (node kdB 0))"
    unfolding kdB_def by code_simp
  with rebuild_sceneB show ?thesis by blast
qed

text \<open>
  C3, amended: for a node with at least three instances, \<^verbatim>\<open>partition\<close> rearranges
  \<^verbatim>\<open>tlasIdx[first .. first+count)\<close> by exchanges inside that range, and leaves two
  children such that every instance in the range of the left child has its centroid
  coordinate on the split axis at or below the split position, and every instance in the
  range of the right child has it above; the two ranges are adjacent and make up the range
  of the node.  (For a node with two instances the children are \<^verbatim>\<open>tlasIdx[first]\<close> and
  \<^verbatim>\<open>tlasIdx[first+1]\<close> as they stand.)
\<close>

theorem partition_sides:
  fixes s :: KDTree and idx axis :: uint and sp :: float
  assumes big: "3 \<le> sint (count (node s idx))"
  defines "s' \<equiv> partition s idx sp axis"
  shows "leftSide s' (node s' (nodePtr s)) axis sp
     \<and> rightSide s' (node s' (nodePtr s + 1)) axis sp
     \<and> first (node s' (nodePtr s)) = first (node s idx)
     \<and> first (node s' (nodePtr s + 1)) = first (node s idx) + count (node s' (nodePtr s))
     \<and> count (node s' (nodePtr s)) + count (node s' (nodePtr s + 1)) = count (node s idx)
     \<and> perm_on {first (node s idx) + of_nat k |k. k < unat (count (node s idx))}
          (tlasIdx s) (tlasIdx s')
     \<and> bounds s' = bounds s"
proof -
  note three = partition_three [OF big, of sp axis, folded s'_def]
  from three show ?thesis by blast
qed

lemma sA0_count: "3 \<le> sint (count (node sA0 0))"
  unfolding sA0_def by code_simp

theorem partition_sides_witness:
  "3 \<le> sint (count (node sA0 0))
   \<and> leftSide (partition sA0 0 (31 / 4) 0) (node (partition sA0 0 (31 / 4) 0) (nodePtr sA0)) 0 (31 / 4)
   \<and> rightSide (partition sA0 0 (31 / 4) 0) (node (partition sA0 0 (31 / 4) 0) (nodePtr sA0 + 1)) 0
        (31 / 4)"
  using partition_sides [OF sA0_count, of "31 / 4" 0] sA0_count by blast

section \<open>The split position\<close>

lemma isLeaf_parax: "parax n = parax m \<Longrightarrow> isLeaf n = isLeaf m"
  by (simp add: isLeaf_def)


lemma subdivide_sA0: "subdivide 3 sA0 0 \<noteq> None"
  unfolding sA0_def by code_simp

lemma subdivide_sA0_leaf:
  "isLeaf (node sA0 0) \<and> \<not> isLeaf (node (the (subdivide 3 sA0 0)) 0)"
  unfolding sA0_def by code_simp

lemma sA0_fields: "nodePtr sA0 = 1 \<and> first (node sA0 0) = 0 \<and> count (node sA0 0) = 3"
  unfolding sA0_def by code_simp

lemma sA0_inRange: "inRange sA0 (node sA0 0)"
  unfolding sA0_def by code_simp

lemma sA0_bounds:
  "unat (0::uint) < unat (nodePtr sA0)
   \<and> unat (nodePtr sA0) + 2 * unat (count (node sA0 0)) \<le> 2 ^ 29
   \<and> unat (first (node sA0 0)) + unat (count (node sA0 0)) < 2 ^ 31"
  using sA0_fields by simp

lemma specSplitPos_sA0: "specAxis sA0 (node sA0 0) = 0 \<and> specSplitPos sA0 (node sA0 0) = 31 / 4"
  unfolding sA0_def by code_simp

text \<open>
  Claim C7. When \<^verbatim>\<open>subdivide\<close> splits a node (a leaf before the call, an interior node
  after it), the node had at least two instances, the axis stored in the low bits of
  \<^verbatim>\<open>parax\<close> is the dominant axis of the range of the centroids of its instances, and the
  stored split position is the one of the specification: the midpoint of that range on
  the axis for at most 150 instances, and for more than 150 instances
  \<open>r * lo + (1 - r) * hi\<close>, where \<open>lo\<close> and \<open>hi\<close> are the ends of the range on the axis and
  \<open>r\<close> is the fraction of the centroids at or below the midpoint, clamped to
  \<open>[0.15, 0.85]\<close>.  The centroid coordinates are taken between the sentinels
  \<^verbatim>\<open>-1e30\<close> and \<^verbatim>\<open>1e30\<close>, and the indices within the range of the packed fields.
\<close>

theorem subdivide_split_position:
  assumes sub: "subdivide fuel s idx = Some s'"
    and lf: "isLeaf (node s idx)" and sp: "\<not> isLeaf (node s' idx)"
    and i: "unat idx < unat (nodePtr s)"
    and b: "unat (nodePtr s) + 2 * unat (count (node s idx)) \<le> 2 ^ 29"
    and h: "unat (first (node s idx)) + unat (count (node s idx)) < 2 ^ 31"
    and r: "inRange s (node s idx)"
  shows "2 \<le> unat (count (node s idx))
    \<and> parax (node s' idx) AND 7 = specAxis s (node s idx)
    \<and> splitPos (node s' idx) = specSplitPos s (node s idx)"
proof -
  have "isLeaf (node (subdivide_bounds s idx) idx)"
    using lf isLeaf_parax [of "node (subdivide_bounds s idx) idx" "node s idx"]
    by (simp add: subdivide_bounds_fields)
  with subdivide_frame [OF sub i b h] sp
  have c2: "2 \<le> unat (count (node s idx))" and n: "node s' idx = node (split_commit s idx) idx"
    by auto
  from c2 have ne: "0 < unat (count (node s idx))" by simp
  note spec = split_spec [OF ne r]
  have "parax (node s' idx) AND 7 = split_axis s idx AND 7"
    unfolding n split_commit_idx by (simp add: low_hi)
  also have "\<dots> = split_axis s idx"
    using dominantAxis_range [of "vsub (bmax (node (subdivide_bounds s idx) idx))
        (bmin (node (subdivide_bounds s idx) idx))"]
    by (auto simp: split_axis_def Let_def)
  finally have "parax (node s' idx) AND 7 = specAxis s (node s idx)"
    by (simp add: spec)
  moreover have "splitPos (node s' idx) = specSplitPos s (node s idx)"
    unfolding n split_commit_idx by (simp add: spec)
  ultimately show ?thesis using c2 by simp
qed

theorem subdivide_split_position_witness:
  "2 \<le> unat (count (node sA0 0))
   \<and> parax (node (the (subdivide 3 sA0 0)) 0) AND 7 = 0
   \<and> splitPos (node (the (subdivide 3 sA0 0)) 0) = 31 / 4"
proof -
  from subdivide_sA0 have sub: "subdivide 3 sA0 0 = Some (the (subdivide 3 sA0 0))"
    by simp
  from subdivide_sA0_leaf have lf: "isLeaf (node sA0 0)"
    and sp: "\<not> isLeaf (node (the (subdivide 3 sA0 0)) 0)"
    by blast+
  from sA0_bounds have i: "unat (0::uint) < unat (nodePtr sA0)"
    and b: "unat (nodePtr sA0) + 2 * unat (count (node sA0 0)) \<le> 2 ^ 29"
    and h: "unat (first (node sA0 0)) + unat (count (node sA0 0)) < 2 ^ 31"
    by blast+
  from subdivide_split_position [OF sub lf sp i b h sA0_inRange] specSplitPos_sA0
  show ?thesis by (simp only:)
qed

section \<open>The bounds of interior nodes\<close>






section \<open>Parent and child indices\<close>






section \<open>The leaf of an instance\<close>




end
